theory Spec2Isabelle
  imports Complex_Main "HOL-Library.List_Lexorder" "HOL-Library.Log_Nat"
begin

section \<open>Python strings\<close>

text \<open>
  A Python \<open>str\<close> is a sequence of Unicode code points. The model keeps the code points
  as natural numbers, so that characters above \<open>0x7F\<close> (which \<open>clean_text\<close> removes) can be
  written down. \<open>py\<close> embeds an ASCII literal.
\<close>

type_synonym pystr = "nat list"

definition py :: "string \<Rightarrow> pystr" where
  "py s = map of_char s"

definition quote_char :: nat where
  "quote_char = 34"

text \<open>
  \<open>str.isspace\<close> for one code point: the white space table of CPython's Unicode database
  (the characters that \<open>str.strip()\<close> removes).
\<close>

definition isspace :: "nat \<Rightarrow> bool" where
  "isspace c \<longleftrightarrow>
     (9 \<le> c \<and> c \<le> 13) \<or> (28 \<le> c \<and> c \<le> 32) \<or> c = 133 \<or> c = 160 \<or> c = 5760
     \<or> (8192 \<le> c \<and> c \<le> 8202) \<or> c = 8232 \<or> c = 8233 \<or> c = 8239 \<or> c = 8287
     \<or> c = 12288"

definition strip :: "pystr \<Rightarrow> pystr" where
  "strip s = rev (dropWhile isspace (rev (dropWhile isspace s)))"

definition endswith :: "pystr \<Rightarrow> pystr \<Rightarrow> bool" where
  "endswith s sfx \<longleftrightarrow>
     length sfx \<le> length s \<and> drop (length s - length sfx) s = sfx"

text \<open>Truthiness of an optional string: \<open>None\<close> and \<open>''\<close> are false.\<close>

fun truthy :: "pystr option \<Rightarrow> bool" where
  "truthy None = False"
| "truthy (Some s) = (s \<noteq> [])"

text \<open>\<open>str(n)\<close> for a non-negative integer, and \<open>str.zfill\<close>.\<close>

definition digit_char :: "nat \<Rightarrow> nat" where
  "digit_char d = 48 + d"

function str_nat :: "nat \<Rightarrow> pystr" where
  "str_nat n = (if n < 10 then [digit_char n] else str_nat (n div 10) @ [digit_char (n mod 10)])"
  by pat_completeness auto
termination
  by (relation "measure id") auto

declare str_nat.simps [simp del]

definition zfill :: "pystr \<Rightarrow> nat \<Rightarrow> pystr" where
  "zfill s width =
     (case s of
        c # rest \<Rightarrow>
          if c = 43 \<or> c = 45 then c # replicate (width - length s) 48 @ rest
          else replicate (width - length s) 48 @ s
      | [] \<Rightarrow> replicate width 48)"

section \<open>Python floats\<close>

text \<open>
  A Python \<open>float\<close> is an IEEE 754 binary64 number. The model keeps its exact value as a
  real number and rounds the exact result of every arithmetic operation to the nearest
  number with a 53-bit significand, ties to even. The exponent range is not modelled: the
  program's quantities (sample rates, sample counts, pitch factors) stay far inside it.
\<close>

definition pow2 :: "int \<Rightarrow> real" where
  "pow2 e = (if 0 \<le> e then 2 ^ nat e else 1 / 2 ^ nat (- e))"

text \<open>The exponent \<open>e\<close> with \<open>2^e \<le> x < 2^(e+1)\<close>, for \<open>x > 0\<close>.\<close>

definition binade :: "real \<Rightarrow> int" where
  "binade x = (if 1 \<le> x then int (floorlog 2 (nat \<lfloor>x\<rfloor>)) - 1
               else - int (floorlog 2 (nat (\<lceil>1 / x\<rceil> - 1))))"

definition round_half_even :: "real \<Rightarrow> int" where
  "round_half_even m =
     (let f = \<lfloor>m\<rfloor>; d = m - of_int f in
      if d < 1 / 2 then f else if 1 / 2 < d then f + 1 else if even f then f else f + 1)"

definition float_round :: "real \<Rightarrow> real" where
  "float_round x =
     (if x = 0 then 0
      else let e = binade \<bar>x\<bar> - 52
           in sgn x * of_int (round_half_even (\<bar>x\<bar> / pow2 e)) * pow2 e)"

definition float_add :: "real \<Rightarrow> real \<Rightarrow> real" where
  "float_add x y = float_round (x + y)"

definition float_sub :: "real \<Rightarrow> real \<Rightarrow> real" where
  "float_sub x y = float_round (x - y)"

definition float_mul :: "real \<Rightarrow> real \<Rightarrow> real" where
  "float_mul x y = float_round (x * y)"

text \<open>The float literal nearest to a decimal constant of the source.\<close>

definition float_lit :: "real \<Rightarrow> real" where
  "float_lit x = float_round x"

section \<open>Constants of the program\<close>

definition PITCH_FACTOR_RANGE :: "real \<times> real" where
  "PITCH_FACTOR_RANGE = (float_lit (8 / 10), float_lit (13 / 10))"

definition MIN_AUDIO_DURATION :: real where
  "MIN_AUDIO_DURATION = float_lit (1 / 2)"

definition DELAY_BETWEEN_LINES_MS :: nat where
  "DELAY_BETWEEN_LINES_MS = 300"

section \<open>The random module\<close>

text \<open>
  \<open>random.random()\<close> returns \<open>k / 2^53\<close> for a 53-bit integer \<open>k\<close> taken from the
  generator; \<open>random.uniform(a, b)\<close> is \<open>a + (b - a) * random()\<close> in float arithmetic.
  The generator is a parameter of the model: a stream of integers, read at a position that
  the state records.
\<close>

definition random_unit :: "nat \<Rightarrow> real" where
  "random_unit k = real (k mod 2 ^ 53) / 2 ^ 53"

definition uniform :: "real \<Rightarrow> real \<Rightarrow> nat \<Rightarrow> real" where
  "uniform a b k = float_add a (float_mul (float_sub b a) (random_unit k))"

section \<open>SpeakerManager\<close>

record speaker_rec =
  name :: pystr
  gender :: pystr
  number :: pystr
  pitch_factor :: real

record entry =
  entry_speaker :: pystr
  entry_text :: pystr

record speaker_manager =
  speakers :: "speaker_rec list"
  superbook :: "entry list"
  random_stream :: "nat \<Rightarrow> nat"
  random_pos :: nat

definition init :: "(nat \<Rightarrow> nat) \<Rightarrow> speaker_manager" where
  "init rs =
     \<lparr>speakers = [\<lparr>name = py ''Narrator'', gender = py ''unknown'',
                    number = py ''singular'', pitch_factor = 1\<rparr>],
      superbook = [], random_stream = rs, random_pos = 0\<rparr>"

definition get_speaker :: "speaker_manager \<Rightarrow> pystr \<Rightarrow> speaker_rec option" where
  "get_speaker sm nm = find (\<lambda>s. name s = nm) (speakers sm)"

text \<open>The in-place update of the first speaker of that name, in \<open>add_speaker\<close>.\<close>

fun upgrade_gender :: "pystr \<Rightarrow> pystr \<Rightarrow> speaker_rec list \<Rightarrow> speaker_rec list" where
  "upgrade_gender nm g [] = []"
| "upgrade_gender nm g (s # ss) =
     (if name s = nm
      then (if gender s = py ''unknown'' \<and> g \<noteq> py ''unknown'' then s\<lparr>gender := g\<rparr> else s) # ss
      else s # upgrade_gender nm g ss)"

definition add_speaker :: "speaker_manager \<Rightarrow> pystr \<Rightarrow> pystr \<Rightarrow> pystr \<Rightarrow> speaker_manager" where
  "add_speaker sm nm g num =
     (case get_speaker sm nm of
        Some existing \<Rightarrow> sm\<lparr>speakers := upgrade_gender nm g (speakers sm)\<rparr>
      | None \<Rightarrow>
          sm\<lparr>speakers := speakers sm @
                [\<lparr>name = nm, gender = g, number = num,
                  pitch_factor = uniform (fst PITCH_FACTOR_RANGE) (snd PITCH_FACTOR_RANGE)
                                   (random_stream sm (random_pos sm))\<rparr>],
              random_pos := Suc (random_pos sm)\<rparr>)"

definition append_entry :: "speaker_manager \<Rightarrow> pystr \<Rightarrow> pystr \<Rightarrow> speaker_manager" where
  "append_entry sm spk txt =
     sm\<lparr>superbook := superbook sm @ [\<lparr>entry_speaker = spk, entry_text = txt\<rparr>]\<rparr>"

section \<open>Text segmentation\<close>

text \<open>\<open>clean_text\<close>: \<open>re.sub(r'[^\x00-\x7F]+', '', text)\<close> deletes every run of code points
  above \<open>0x7F\<close>.\<close>

definition clean_text :: "pystr \<Rightarrow> pystr" where
  "clean_text t = filter (\<lambda>c. c \<le> 127) t"

datatype part_type = narration | dialogue

record part =
  ptype :: part_type
  ptext :: pystr

text \<open>
  One match attempt of the pattern \<open>([^"]*)(?:"([^"]*)")?\<close> at the head of \<open>s\<close>: the first
  group takes the longest run of characters that are not quotes; the optional group matches
  if a quote follows and a second quote closes it, and is skipped otherwise (an unmatched
  group is reported as the empty string by \<open>re.findall\<close>). The result is the two groups and
  the text after the match.
\<close>

definition match_here :: "pystr \<Rightarrow> pystr \<times> pystr \<times> pystr" where
  "match_here s =
     (let n = takeWhile (\<lambda>c. c \<noteq> quote_char) s;
          r = dropWhile (\<lambda>c. c \<noteq> quote_char) s
      in case r of
           [] \<Rightarrow> (n, [], [])
         | q # r1 \<Rightarrow>
             (let d = takeWhile (\<lambda>c. c \<noteq> quote_char) r1;
                  r2 = dropWhile (\<lambda>c. c \<noteq> quote_char) r1
              in case r2 of
                   [] \<Rightarrow> (n, [], r)
                 | q2 # rest \<Rightarrow> (n, d, rest)))"

text \<open>
  The scan of \<open>re.findall\<close>: matches are taken from left to right, each search starting
  where the last match ended. After an empty match the next match at the same position must
  not be empty (\<open>must_advance\<close>); if there is none, the search moves one character on.
\<close>

function findall :: "bool \<Rightarrow> pystr \<Rightarrow> (pystr \<times> pystr) list" where
  "findall must_advance s =
     (case match_here s of
        (n, d, rest) \<Rightarrow>
          if length rest < length s then (n, d) # findall False rest
          else if must_advance then (case s of [] \<Rightarrow> [] | c # s1 \<Rightarrow> findall False s1)
          else (n, d) # findall True s)"
  by pat_completeness auto
termination
  by (relation "measure (\<lambda>(m, s). 2 * length s + (if m then 0 else 1))") auto

declare findall.simps [simp del]

definition parts_of_match :: "pystr \<times> pystr \<Rightarrow> part list" where
  "parts_of_match m =
     (if strip (fst m) \<noteq> [] then [\<lparr>ptype = narration, ptext = strip (fst m)\<rparr>] else []) @
     (if strip (snd m) \<noteq> [] then [\<lparr>ptype = dialogue, ptext = strip (snd m)\<rparr>] else [])"

definition split_narration_dialogue :: "pystr \<Rightarrow> part list" where
  "split_narration_dialogue line = concat (map parts_of_match (findall False line))"

section \<open>Attribution tags\<close>

text \<open>
  \<open>\w\<close> in a \<open>str\<close> pattern: letters, digits and the underscore; for code points above
  \<open>0x7F\<close> the Unicode database decides, which is the parameter \<open>ua\<close> (\<open>str.isalnum\<close>).
\<close>

definition is_word :: "(nat \<Rightarrow> bool) \<Rightarrow> nat \<Rightarrow> bool" where
  "is_word ua c \<longleftrightarrow>
     (if c < 128
      then (48 \<le> c \<and> c \<le> 57) \<or> (65 \<le> c \<and> c \<le> 90) \<or> (97 \<le> c \<and> c \<le> 122) \<or> c = 95
      else ua c)"

definition attribution_verbs :: "pystr list" where
  "attribution_verbs =
     [py ''said'', py ''asked'', py ''replied'', py ''shouted'', py ''whispered'', py ''added'']"

text \<open>\<open>\b\<close> between the previous character (if any) and the next one (if any).\<close>

definition word_boundary :: "(nat \<Rightarrow> bool) \<Rightarrow> nat option \<Rightarrow> nat option \<Rightarrow> bool" where
  "word_boundary ua prev nxt \<longleftrightarrow>
     (case prev of None \<Rightarrow> False | Some c \<Rightarrow> is_word ua c)
       \<noteq> (case nxt of None \<Rightarrow> False | Some c \<Rightarrow> is_word ua c)"

text \<open>
  \<open>(said|asked|replied|shouted|whispered|added) (\w+)\<close> at the head of \<open>s\<close>: the alternatives
  in order, then one space, then the longest non-empty run of word characters (group 2).
\<close>

fun match_verbs :: "(nat \<Rightarrow> bool) \<Rightarrow> pystr list \<Rightarrow> pystr \<Rightarrow> pystr option" where
  "match_verbs ua [] s = None"
| "match_verbs ua (v # vs) s =
     (if take (length v) s = v
         \<and> take 1 (drop (length v) s) = [32]
         \<and> takeWhile (is_word ua) (drop (length v + 1) s) \<noteq> []
      then Some (takeWhile (is_word ua) (drop (length v + 1) s))
      else match_verbs ua vs s)"

text \<open>\<open>re.search\<close>: the first position, from the left, where the pattern matches.\<close>

fun search_attribution :: "(nat \<Rightarrow> bool) \<Rightarrow> nat option \<Rightarrow> pystr \<Rightarrow> pystr option" where
  "search_attribution ua prev [] = None"
| "search_attribution ua prev (c # cs) =
     (if word_boundary ua prev (Some c)
      then (case match_verbs ua attribution_verbs (c # cs) of
              Some t \<Rightarrow> Some t
            | None \<Rightarrow> search_attribution ua (Some c) cs)
      else search_attribution ua (Some c) cs)"

definition detect_attribution :: "(nat \<Rightarrow> bool) \<Rightarrow> pystr \<Rightarrow> pystr option" where
  "detect_attribution ua t = search_attribution ua None t"

section \<open>The annotator\<close>

text \<open>
  The NLP model is a collaborator of the program: it is the parameter \<open>nlp\<close>, a function
  from a line to its annotation. An annotation has the fields the program reads.
\<close>

record token =
  tok_text :: pystr
  tok_pos :: pystr
  tok_dep :: pystr
  tok_lower :: pystr

record ent =
  ent_text :: pystr
  ent_label :: pystr

record doc =
  ents :: "ent list"
  tokens :: "token list"

definition pronoun_map :: "(pystr \<times> pystr) list" where
  "pronoun_map =
     [(py ''he'', py ''male''), (py ''him'', py ''male''), (py ''his'', py ''male''),
      (py ''she'', py ''female''), (py ''her'', py ''female''), (py ''hers'', py ''female''),
      (py ''they'', py ''unknown'')]"

fun infer_gender_tokens :: "token list \<Rightarrow> pystr" where
  "infer_gender_tokens [] = py ''unknown''"
| "infer_gender_tokens (t # ts) =
     (if tok_pos t = py ''PRON'' then
        (case map_of pronoun_map (tok_lower t) of
           Some g \<Rightarrow> g
         | None \<Rightarrow> infer_gender_tokens ts)
      else infer_gender_tokens ts)"

definition infer_gender_from_pronouns :: "doc \<Rightarrow> pystr" where
  "infer_gender_from_pronouns d = infer_gender_tokens (tokens d)"

definition get_named_speaker :: "doc \<Rightarrow> pystr option" where
  "get_named_speaker d =
     (case find (\<lambda>e. ent_label e = py ''PERSON'') (ents d) of
        Some e \<Rightarrow> Some (ent_text e)
      | None \<Rightarrow>
          (case find (\<lambda>t. tok_pos t = py ''PROPN''
                          \<and> (tok_dep t = py ''nsubj'' \<or> tok_dep t = py ''attr'')) (tokens d) of
             Some t \<Rightarrow> Some (tok_text t)
           | None \<Rightarrow> None))"

section \<open>Speaker attribution\<close>

text \<open>
  The state of the loop in \<open>process_text_lines\<close> is the speaker manager and
  \<open>last_quoted_speaker\<close>. \<open>process_part\<close> is the body of the inner loop, for one part of a
  line whose named speaker and gender have been computed.
\<close>

definition process_part ::
  "(nat \<Rightarrow> bool) \<Rightarrow> pystr option \<Rightarrow> pystr \<Rightarrow> speaker_manager \<times> pystr option \<Rightarrow> part
     \<Rightarrow> speaker_manager \<times> pystr option" where
  "process_part ua named_speaker g st p =
     (case st of (sm, last_quoted_speaker) \<Rightarrow>
        if ptype p = dialogue then
          (if truthy named_speaker then
             (append_entry (add_speaker sm (the named_speaker) g (py ''singular''))
                (the named_speaker) (ptext p),
              named_speaker)
           else
             (append_entry sm
                (if truthy last_quoted_speaker then the last_quoted_speaker
                 else py ''Unnamed Speaker 1'')
                (ptext p),
              last_quoted_speaker))
        else
          (let attribution = detect_attribution ua (ptext p) in
           if truthy attribution then
             (append_entry
                (add_speaker sm (the attribution) (py ''unknown'') (py ''singular''))
                (py ''Narrator'') (ptext p),
              attribution)
           else (append_entry sm (py ''Narrator'') (ptext p), last_quoted_speaker)))"

definition process_line ::
  "(pystr \<Rightarrow> doc) \<Rightarrow> (nat \<Rightarrow> bool) \<Rightarrow> speaker_manager \<times> pystr option \<Rightarrow> pystr
     \<Rightarrow> speaker_manager \<times> pystr option" where
  "process_line nlp ua st line0 =
     (let line = clean_text line0;
          line_doc = nlp line;
          named_speaker = get_named_speaker line_doc;
          g = (if truthy named_speaker then infer_gender_from_pronouns line_doc
               else py ''unknown'');
          line_parts = split_narration_dialogue line
      in foldl (process_part ua named_speaker g) st line_parts)"

definition process_lines ::
  "(pystr \<Rightarrow> doc) \<Rightarrow> (nat \<Rightarrow> bool) \<Rightarrow> speaker_manager \<times> pystr option \<Rightarrow> pystr list
     \<Rightarrow> speaker_manager \<times> pystr option" where
  "process_lines nlp ua st lines = foldl (process_line nlp ua) st lines"

definition process_text_lines ::
  "(pystr \<Rightarrow> doc) \<Rightarrow> (nat \<Rightarrow> bool) \<Rightarrow> pystr list \<Rightarrow> speaker_manager \<Rightarrow> speaker_manager" where
  "process_text_lines nlp ua lines sm = fst (process_lines nlp ua (sm, None) lines)"

text \<open>The alternation between two unnamed speakers.\<close>

definition unnamed_speakers :: "pystr list" where
  "unnamed_speakers = [py ''Unnamed Speaker 1'', py ''Unnamed Speaker 2'']"

fun alternate_loop :: "speaker_manager \<Rightarrow> nat \<Rightarrow> pystr list \<Rightarrow> speaker_manager" where
  "alternate_loop sm current_speaker_index [] = sm"
| "alternate_loop sm current_speaker_index (line # lines) =
     alternate_loop
       (append_entry sm (unnamed_speakers ! current_speaker_index) (strip line))
       ((current_speaker_index + 1) mod 2) lines"

definition alternate_speakers_without_person_entities ::
  "pystr list \<Rightarrow> speaker_manager \<Rightarrow> speaker_manager" where
  "alternate_speakers_without_person_entities lines sm =
     alternate_loop
       (add_speaker
          (add_speaker sm (py ''Unnamed Speaker 1'') (py ''unknown'') (py ''singular''))
          (py ''Unnamed Speaker 2'') (py ''unknown'') (py ''singular''))
       0 lines"

text \<open>
  The gender backfill. The name data set is the parameter \<open>nd\<close>: it answers with a gender,
  or with \<open>None\<close> when the search finds nothing or raises (the exception is logged).
\<close>

definition guess_gender :: "(pystr \<Rightarrow> pystr option) \<Rightarrow> speaker_rec \<Rightarrow> speaker_rec" where
  "guess_gender nd s =
     (if gender s = py ''unknown'' \<and> name s \<noteq> py ''Narrator'' then
        (case nd (name s) of Some g \<Rightarrow> s\<lparr>gender := g\<rparr> | None \<Rightarrow> s)
      else s)"

definition guess_genders_for_speakers ::
  "(pystr \<Rightarrow> pystr option) \<Rightarrow> speaker_manager \<Rightarrow> speaker_manager" where
  "guess_genders_for_speakers nd sm = sm\<lparr>speakers := map (guess_gender nd) (speakers sm)\<rparr>"

section \<open>Audio files\<close>

text \<open>
  A wave file holds samples and a sample rate. The file system is a list of paths with
  their contents, one entry for a path. The collaborators of the audio phase are
  parameters: the speech engine (\<open>tts_to_file\<close> followed by \<open>librosa.load\<close> of the file it
  wrote; \<open>None\<close> when it raises), \<open>librosa.resample\<close>, \<open>librosa.effects.time_stretch\<close>
  (\<open>None\<close> when they raise) and whether \<open>soundfile.write\<close> can write a path.
\<close>

record wav =
  samples :: "real list"
  sample_rate :: nat

type_synonym files = "(pystr \<times> wav) list"

definition file_remove :: "files \<Rightarrow> pystr \<Rightarrow> files" where
  "file_remove fs path = filter (\<lambda>f. fst f \<noteq> path) fs"

definition file_write :: "files \<Rightarrow> pystr \<Rightarrow> wav \<Rightarrow> files" where
  "file_write fs path w = file_remove fs path @ [(path, w)]"

record audio_env =
  tts :: "pystr \<Rightarrow> wav option"
  resample :: "real list \<Rightarrow> nat \<Rightarrow> nat \<Rightarrow> real list option"
  time_stretch :: "real list \<Rightarrow> real \<Rightarrow> real list option"
  writable :: "pystr \<Rightarrow> bool"

text \<open>True division; \<open>None\<close> is \<open>ZeroDivisionError\<close>.\<close>

definition float_div :: "real \<Rightarrow> real \<Rightarrow> real option" where
  "float_div x y = (if y = 0 then None else Some (float_round (x / y)))"

text \<open>
  \<open>apply_pitch_shift_librosa\<close>: every exception inside is caught and logged, and then
  nothing is written.
\<close>

definition apply_pitch_shift_librosa ::
  "audio_env \<Rightarrow> real list \<Rightarrow> nat \<Rightarrow> real \<Rightarrow> pystr \<Rightarrow> files \<Rightarrow> files" where
  "apply_pitch_shift_librosa env y sr pf output_path fs =
     (let new_sr = nat \<lfloor>float_mul (real sr) pf\<rfloor> in
      case resample env y sr new_sr of
        None \<Rightarrow> fs
      | Some shifted_audio \<Rightarrow>
          (case float_div (real (length y)) (real sr) of
             None \<Rightarrow> fs
           | Some original_length \<Rightarrow>
               (case float_div (real (length shifted_audio))
                       (float_mul (real sr) original_length) of
                  None \<Rightarrow> fs
                | Some duration_stretch_factor \<Rightarrow>
                    (case time_stretch env shifted_audio duration_stretch_factor of
                       None \<Rightarrow> fs
                     | Some stretched_audio \<Rightarrow>
                         if writable env output_path
                         then file_write fs output_path
                                \<lparr>samples = stretched_audio, sample_rate = sr\<rparr>
                         else fs))))"

definition temp_audio_path :: "nat \<Rightarrow> pystr" where
  "temp_audio_path index = py ''audio/temp_'' @ str_nat index @ py ''.wav''"

definition output_audio_path :: "nat \<Rightarrow> nat \<Rightarrow> pystr \<Rightarrow> pystr" where
  "output_audio_path index width speaker_name =
     py ''audio/'' @ zfill (str_nat index) width @ py ''_'' @ speaker_name @ py ''.wav''"

text \<open>\<open>enumerate(superbook, 1)\<close>.\<close>

definition enumerate1 :: "'a list \<Rightarrow> (nat \<times> 'a) list" where
  "enumerate1 xs = zip [1 ..< Suc (length xs)] xs"

text \<open>The task of the worker pool, \<open>process_entry\<close>, for one entry.\<close>

definition process_entry ::
  "audio_env \<Rightarrow> speaker_manager \<Rightarrow> files \<Rightarrow> nat \<times> entry \<Rightarrow> files" where
  "process_entry env sm fs ie =
     (case ie of (index, e) \<Rightarrow>
        (case get_speaker sm (entry_speaker e) of
           None \<Rightarrow> fs
         | Some speaker_data \<Rightarrow>
             (case tts env (entry_text e) of
                None \<Rightarrow> fs
              | Some w \<Rightarrow>
                  file_remove
                    (apply_pitch_shift_librosa env (samples w) (sample_rate w)
                       (pitch_factor speaker_data)
                       (output_audio_path index 2 (entry_speaker e))
                       (file_write fs (temp_audio_path index) w))
                    (temp_audio_path index))))"

text \<open>
  The executor runs every submitted task once, in an order of its own: \<open>schedule\<close> lists
  the positions of the tasks in the order in which they run. Two tasks never touch the same
  file, so each task is one step.
\<close>

definition generate_audio_with_librosa_multithreading ::
  "audio_env \<Rightarrow> nat list \<Rightarrow> speaker_manager \<Rightarrow> files \<Rightarrow> files" where
  "generate_audio_with_librosa_multithreading env schedule sm fs =
     foldl (process_entry env sm) fs
       (map (\<lambda>i. enumerate1 (superbook sm) ! i)
          (filter (\<lambda>i. i < length (superbook sm)) schedule))"

text \<open>The body of the loop of the single-threaded generator.\<close>

definition process_entry_single_thread ::
  "audio_env \<Rightarrow> speaker_manager \<Rightarrow> nat \<Rightarrow> files \<Rightarrow> nat \<times> entry \<Rightarrow> files" where
  "process_entry_single_thread env sm num_digits fs ie =
     (case ie of (index, e) \<Rightarrow>
        (case get_speaker sm (entry_speaker e) of
           None \<Rightarrow> fs
         | Some speaker_data \<Rightarrow>
             (case tts env (entry_text e) of
                None \<Rightarrow> fs
              | Some w \<Rightarrow>
                  (let fs1 = file_write fs (temp_audio_path index) w in
                   case float_div (real (length (samples w))) (real (sample_rate w)) of
                     None \<Rightarrow> fs1
                   | Some duration \<Rightarrow>
                       if duration < MIN_AUDIO_DURATION then
                         (if writable env (output_audio_path index num_digits (entry_speaker e))
                          then file_write fs1
                                 (output_audio_path index num_digits (entry_speaker e)) w
                          else fs1)
                       else
                         file_remove
                           (apply_pitch_shift_librosa env (samples w) (sample_rate w)
                              (pitch_factor speaker_data)
                              (output_audio_path index num_digits (entry_speaker e)) fs1)
                           (temp_audio_path index)))))"

definition generate_audio_with_librosa_single_thread ::
  "audio_env \<Rightarrow> speaker_manager \<Rightarrow> files \<Rightarrow> files" where
  "generate_audio_with_librosa_single_thread env sm fs =
     (let total_entries = length (superbook sm);
          num_digits = length (str_nat total_entries)
      in foldl (process_entry_single_thread env sm num_digits) fs (enumerate1 (superbook sm)))"

section \<open>Assembly\<close>

text \<open>
  An \<open>AudioSegment\<close> is measured in milliseconds: the model keeps it as the list of its
  milliseconds, so that \<open>len\<close> is the duration, \<open>+\<close> is concatenation and
  \<open>AudioSegment.silent(duration=d)\<close> has \<open>d\<close> silent ones. \<open>from_wav\<close>, which decodes a
  file, is a parameter.
\<close>

type_synonym audio_segment = "int list"

definition silent :: "nat \<Rightarrow> audio_segment" where
  "silent duration = replicate duration 0"

text \<open>\<open>os.listdir\<close>: the names of the files of a directory, with their contents.\<close>

definition listdir :: "files \<Rightarrow> pystr \<Rightarrow> (pystr \<times> wav) list" where
  "listdir fs directory =
     map (\<lambda>f. (drop (length directory + 1) (fst f), snd f))
       (filter (\<lambda>f. take (length directory + 1) (fst f) = directory @ [47]
                     \<and> 47 \<notin> set (drop (length directory + 1) (fst f))) fs)"

definition combine_step ::
  "(wav \<Rightarrow> audio_segment) \<Rightarrow> audio_segment \<Rightarrow> pystr \<times> wav \<Rightarrow> audio_segment" where
  "combine_step from_wav combined f =
     (if endswith (fst f) (py ''.wav'')
      then combined @ (from_wav (snd f) @ silent DELAY_BETWEEN_LINES_MS)
      else combined)"

definition combine_audio_files ::
  "(wav \<Rightarrow> audio_segment) \<Rightarrow> files \<Rightarrow> pystr \<Rightarrow> audio_segment" where
  "combine_audio_files from_wav fs directory =
     foldl (combine_step from_wav) (silent 0) (sort_key fst (listdir fs directory))"

section \<open>Operations on the registry\<close>

text \<open>
  Every function of the program that takes the speaker manager, as one operation; a run is
  a sequence of operations on a fresh manager.
\<close>

datatype operation =
    AddSpeaker pystr pystr pystr
  | GetSpeaker pystr
  | ProcessTextLines "pystr \<Rightarrow> doc" "nat \<Rightarrow> bool" "pystr list"
  | AlternateSpeakers "pystr list"
  | GuessGenders "pystr \<Rightarrow> pystr option"

fun apply_operation :: "speaker_manager \<Rightarrow> operation \<Rightarrow> speaker_manager" where
  "apply_operation sm (AddSpeaker nm g num) = add_speaker sm nm g num"
| "apply_operation sm (GetSpeaker nm) = sm"
| "apply_operation sm (ProcessTextLines nlp ua lines) = process_text_lines nlp ua lines sm"
| "apply_operation sm (AlternateSpeakers lines) =
     alternate_speakers_without_person_entities lines sm"
| "apply_operation sm (GuessGenders nd) = guess_genders_for_speakers nd sm"

definition run :: "(nat \<Rightarrow> nat) \<Rightarrow> operation list \<Rightarrow> speaker_manager" where
  "run rs ops = foldl apply_operation (init rs) ops"

text \<open>The names and pitch factors of the registry, in order.\<close>

definition pitches :: "speaker_manager \<Rightarrow> (pystr \<times> real) list" where
  "pitches sm = map (\<lambda>s. (name s, pitch_factor s)) (speakers sm)"

section \<open>Notions of the claims\<close>

text \<open>The number of double-quote characters of a line.\<close>

definition count_quotes :: "pystr \<Rightarrow> nat" where
  "count_quotes s = length (filter (\<lambda>c. c = quote_char) s)"

text \<open>The text before and after the last double quote of a line.\<close>

definition before_last_quote :: "pystr \<Rightarrow> pystr" where
  "before_last_quote s = rev (tl (dropWhile (\<lambda>c. c \<noteq> quote_char) (rev s)))"

definition after_last_quote :: "pystr \<Rightarrow> pystr" where
  "after_last_quote s = rev (takeWhile (\<lambda>c. c \<noteq> quote_char) (rev s))"

text \<open>The content of a text that is not white space.\<close>

definition non_whitespace :: "pystr \<Rightarrow> pystr" where
  "non_whitespace s = filter (\<lambda>c. \<not> isspace c) s"

text \<open>The texts of the segments, concatenated in order.\<close>

definition segment_texts :: "part list \<Rightarrow> pystr" where
  "segment_texts ps = concat (map ptext ps)"

text \<open>The entry that one part of a line appends: it has the text of the part, and
  Narrator speaks the narration.\<close>

definition entry_of_part :: "part \<Rightarrow> entry \<Rightarrow> bool" where
  "entry_of_part p e \<longleftrightarrow>
     entry_text e = ptext p \<and> (ptype p = narration \<longrightarrow> entry_speaker e = py ''Narrator'')"

text \<open>An entry whose text has ASCII characters only.\<close>

definition ascii_entry :: "entry \<Rightarrow> bool" where
  "ascii_entry e \<longleftrightarrow> list_all (\<lambda>c. c \<le> 127) (entry_text e)"

text \<open>
  The capitalized tokens of a text that stand right after an attribution verb and a space,
  from left to right: the tokens of which C5 speaks.
\<close>

definition capitalized_token_after ::
  "(nat \<Rightarrow> bool) \<Rightarrow> pystr \<Rightarrow> pystr \<Rightarrow> pystr list" where
  "capitalized_token_after ua verb s =
     (if take (length verb + 1) s = verb @ [32] then
        (case takeWhile (is_word ua) (drop (length verb + 1) s) of
           [] \<Rightarrow> []
         | c # cs \<Rightarrow> if 65 \<le> c \<and> c \<le> 90 then [c # cs] else [])
      else [])"

fun capitalized_attributions :: "(nat \<Rightarrow> bool) \<Rightarrow> pystr \<Rightarrow> pystr list" where
  "capitalized_attributions ua [] = []"
| "capitalized_attributions ua (c # cs) =
     concat (map (\<lambda>verb. capitalized_token_after ua verb (c # cs)) attribution_verbs)
     @ capitalized_attributions ua cs"

section \<open>Facts about float rounding\<close>

lemma pow2_powi: "pow2 e = 2 powi e"
  by (simp add: pow2_def power_int_def field_simps)

lemma pow2_pos: "0 < pow2 e"
  by (simp add: pow2_powi)

lemma pow2_add: "pow2 (a + b) = pow2 a * pow2 b"
  by (simp add: pow2_powi power_int_add)

lemma pow2_nat: "pow2 (int n) = 2 ^ n"
  by (simp add: pow2_def)

lemma pow2_mono: "a \<le> b \<Longrightarrow> pow2 a \<le> pow2 b"
  by (simp add: pow2_powi power_int_increasing)

lemma pow2_neg: "pow2 (- e) = 1 / pow2 e"
  by (simp add: pow2_powi power_int_minus field_simps)

lemma binade_unique:
  assumes "pow2 n \<le> x" and "x < pow2 (n + 1)"
  shows "binade x = n"
proof (cases "1 \<le> x")
  case True
  have "0 \<le> n"
  proof (rule ccontr)
    assume "\<not> 0 \<le> n"
    then have "n + 1 \<le> 0" by simp
    then have "pow2 (n + 1) \<le> pow2 0" by (rule pow2_mono)
    with assms(2) True show False by (simp add: pow2_def)
  qed
  then obtain k where k: "n = int k" by (metis nat_0_le)
  have lo: "2 ^ k \<le> nat \<lfloor>x\<rfloor>"
  proof -
    have "(2::real) ^ k \<le> x" using assms(1) k by (simp add: pow2_nat)
    then have "(2::int) ^ k \<le> \<lfloor>x\<rfloor>" by (simp add: le_floor_iff)
    then show ?thesis by (simp add: le_nat_iff)
  qed
  have hi: "nat \<lfloor>x\<rfloor> < 2 ^ (k + 1)"
  proof -
    have "x < 2 ^ (k + 1)" using assms(2) k pow2_nat [of "k + 1"] by (simp add: add.commute)
    then have "\<lfloor>x\<rfloor> < (2::int) ^ (k + 1)" by (simp add: floor_less_iff)
    then show ?thesis using True by (simp add: nat_less_iff)
  qed
  have "floorlog 2 (nat \<lfloor>x\<rfloor>) = k + 1"
  proof (rule antisym)
    show "floorlog 2 (nat \<lfloor>x\<rfloor>) \<le> k + 1" using hi by (intro floorlog_leI) simp_all
    show "k + 1 \<le> floorlog 2 (nat \<lfloor>x\<rfloor>)" using lo by (intro floorlog_geI) simp_all
  qed
  with True k show ?thesis by (simp add: binade_def)
next
  case False
  have xpos: "0 < x" using assms(1) pow2_pos [of n] by linarith
  have "n < 0"
  proof (rule ccontr)
    assume "\<not> n < 0"
    then have "pow2 0 \<le> pow2 n" by (intro pow2_mono) simp
    with assms(1) False show False by (simp add: pow2_def)
  qed
  define k where "k = nat (- n - 1)"
  with \<open>n < 0\<close> have k: "n = - int (k + 1)" by simp
  have px: "pow2 n = 1 / 2 ^ (k + 1)" using k by (simp add: pow2_def nat_add_distrib)
  have px1: "pow2 (n + 1) = 1 / 2 ^ k" using k by (simp add: pow2_def nat_add_distrib)
  let ?y = "1 / x"
  have y_hi: "?y \<le> 2 ^ (k + 1)"
  proof -
    have "1 / 2 ^ (k + 1) \<le> x" using assms(1) px by simp
    then have "1 \<le> x * 2 ^ (k + 1)" by (simp add: pos_divide_le_eq)
    then show ?thesis using xpos by (simp add: pos_divide_le_eq mult.commute)
  qed
  have y_lo: "2 ^ k < ?y"
  proof -
    have "x < 1 / 2 ^ k" using assms(2) px1 by simp
    then have "x * 2 ^ k < 1" by (simp add: pos_less_divide_eq)
    then show ?thesis using xpos by (simp add: pos_less_divide_eq mult.commute)
  qed
  have c_hi: "\<lceil>?y\<rceil> \<le> 2 ^ (k + 1)"
    using y_hi by (simp add: ceiling_le_iff)
  have c_lo: "2 ^ k < \<lceil>?y\<rceil>"
    using y_lo by (simp add: less_ceiling_iff)
  have lo: "2 ^ k \<le> nat (\<lceil>?y\<rceil> - 1)"
    using c_lo by (simp add: le_nat_iff)
  have hi: "nat (\<lceil>?y\<rceil> - 1) < 2 ^ (k + 1)"
  proof -
    have "(1::int) \<le> 2 ^ k" by simp
    with c_lo have nn: "0 \<le> \<lceil>?y\<rceil> - 1" by linarith
    have "\<lceil>?y\<rceil> - 1 < int (2 ^ (k + 1))" using c_hi by simp
    with nn show ?thesis by (simp only: nat_less_iff)
  qed
  have "floorlog 2 (nat (\<lceil>?y\<rceil> - 1)) = k + 1"
  proof (rule antisym)
    show "floorlog 2 (nat (\<lceil>?y\<rceil> - 1)) \<le> k + 1" using hi by (intro floorlog_leI) simp_all
    show "k + 1 \<le> floorlog 2 (nat (\<lceil>?y\<rceil> - 1))" using lo by (intro floorlog_geI) simp_all
  qed
  with False k show ?thesis by (simp add: binade_def)
qed


lemma round_half_even_of_int: "round_half_even (of_int n) = n"
  by (simp add: round_half_even_def)

lemma round_half_even_ge: "of_int n \<le> m \<Longrightarrow> n \<le> round_half_even m"
proof -
  assume "of_int n \<le> m"
  then have "n \<le> \<lfloor>m\<rfloor>" by (simp add: le_floor_iff)
  moreover have "\<lfloor>m\<rfloor> \<le> round_half_even m"
    by (simp add: round_half_even_def Let_def)
  ultimately show ?thesis by linarith
qed

lemma round_half_even_le: "m \<le> of_int n \<Longrightarrow> round_half_even m \<le> n"
proof -
  assume le: "m \<le> of_int n"
  show ?thesis
  proof (cases "m = of_int n")
    case True
    then show ?thesis by (simp add: round_half_even_of_int)
  next
    case False
    with le have "m < of_int n" by simp
    then have "\<lfloor>m\<rfloor> < n" by (simp add: floor_less_iff)
    then have "\<lfloor>m\<rfloor> + 1 \<le> n" by simp
    moreover have "round_half_even m \<le> \<lfloor>m\<rfloor> + 1"
      by (simp add: round_half_even_def Let_def)
    ultimately show ?thesis by linarith
  qed
qed

lemma float_round_pos_eq:
  assumes "pow2 n \<le> x" and "x < pow2 (n + 1)"
  shows "float_round x = of_int (round_half_even (x / pow2 (n - 52))) * pow2 (n - 52)"
proof -
  have "0 < x" using assms(1) pow2_pos [of n] by linarith
  moreover have "binade x = n" using assms by (rule binade_unique)
  ultimately show ?thesis by (simp add: float_round_def Let_def)
qed

lemma pow2_powr: "pow2 n = 2 powr (of_int n)"
  by (simp add: pow2_powi powr_real_of_int')

lemma binade_exists:
  assumes "0 < x"
  shows "\<exists>n. pow2 n \<le> x \<and> x < pow2 (n + 1)"
proof -
  let ?n = "\<lfloor>log 2 x\<rfloor>"
  have "2 powr (of_int ?n) \<le> 2 powr (log 2 x)" by (simp add: powr_mono)
  then have a: "pow2 ?n \<le> x" using assms by (simp add: pow2_powr)
  have "2 powr (log 2 x) < 2 powr (of_int (?n + 1))"
    by (intro powr_less_mono) simp_all
  then have b: "x < pow2 (?n + 1)" using assms by (simp add: pow2_powr)
  from a b show ?thesis by blast
qed

lemma pow2_less_cancel: "pow2 a < pow2 b \<Longrightarrow> a < b"
  using pow2_mono [of b a] by (cases "a < b") auto

lemma float_round_exact:
  assumes "0 < m" and "m < 2 ^ 53"
  shows "float_round (of_int m * pow2 e) = of_int m * pow2 e"
proof -
  let ?x = "of_int m * pow2 e"
  have xpos: "0 < ?x" using assms(1) pow2_pos [of e] by simp
  then obtain n where n: "pow2 n \<le> ?x" "?x < pow2 (n + 1)"
    using binade_exists by blast
  have p53: "pow2 53 = 2 ^ 53" by (simp add: pow2_def)
  have "real_of_int m < 2 ^ 53"
    using assms(2) by (simp add: of_int_less_numeral_power_cancel_iff)
  then have "?x < pow2 53 * pow2 e"
    using pow2_pos [of e] by (simp only: p53 mult_less_cancel_right_pos)
  also have "\<dots> = pow2 (53 + e)"
    by (simp only: pow2_add)
  finally have "pow2 n < pow2 (53 + e)" using n(1) by linarith
  then have "n < 53 + e" by (rule pow2_less_cancel)
  then have d: "0 \<le> e - (n - 52)" by simp
  have split: "pow2 e = pow2 (e - (n - 52)) * pow2 (n - 52)"
    by (simp add: pow2_add [symmetric])
  have "?x / pow2 (n - 52) = of_int m * pow2 (e - (n - 52))"
    using pow2_pos [of "n - 52"] by (subst split) simp
  also have "\<dots> = of_int (m * 2 ^ nat (e - (n - 52)))"
    using d by (simp add: pow2_def)
  finally have "round_half_even (?x / pow2 (n - 52)) = m * 2 ^ nat (e - (n - 52))"
    by (simp only: round_half_even_of_int)
  then have "float_round ?x = of_int (m * 2 ^ nat (e - (n - 52))) * pow2 (n - 52)"
    using float_round_pos_eq [OF n] by simp
  also have "\<dots> = of_int m * (pow2 (e - (n - 52)) * pow2 (n - 52))"
    using d by (simp add: pow2_def)
  also have "\<dots> = ?x" using split by simp
  finally show ?thesis .
qed

lemma float_round_nat: "n < 2 ^ 53 \<Longrightarrow> float_round (real n) = real n"
proof (cases "n = 0")
  case True
  then show ?thesis by (simp add: float_round_def)
next
  case False
  assume "n < 2 ^ 53"
  then have "int n < 2 ^ 53" by (metis of_nat_less_iff of_nat_numeral of_nat_power)
  with False show ?thesis
    using float_round_exact [of "int n" 0] by (simp add: pow2_def)
qed


lemma pitch_lo: "fst PITCH_FACTOR_RANGE = 7205759403792794 / 2 ^ 53"
proof -
  have "float_round (8 / 10) = 7205759403792794 / 2 ^ 53"
    by (subst float_round_pos_eq [where n = "-1"])
       (simp_all add: pow2_def round_half_even_def Let_def)
  then show ?thesis by (simp add: PITCH_FACTOR_RANGE_def float_lit_def)
qed

lemma pitch_hi: "snd PITCH_FACTOR_RANGE = 5854679515581645 / 2 ^ 52"
proof -
  have "float_round (13 / 10) = 5854679515581645 / 2 ^ 52"
    by (subst float_round_pos_eq [where n = 0])
       (simp_all add: pow2_def round_half_even_def Let_def)
  then show ?thesis by (simp add: PITCH_FACTOR_RANGE_def float_lit_def)
qed

lemma float_round_half: "float_round (1 / 2) = 1 / 2"
  using float_round_exact [of 1 "-1"] by (simp add: pow2_def)

lemma pitch_width: "float_sub (snd PITCH_FACTOR_RANGE) (fst PITCH_FACTOR_RANGE) = 1 / 2"
proof -
  have "snd PITCH_FACTOR_RANGE - fst PITCH_FACTOR_RANGE = 1 / 2"
    by (simp add: pitch_lo pitch_hi)
  then show ?thesis by (simp only: float_sub_def float_round_half)
qed

lemma scaled_draw: "float_mul (1 / 2) (random_unit k) = real (k mod 2 ^ 53) / 2 ^ 54"
proof (cases "k mod 2 ^ 53 = 0")
  case True
  then show ?thesis by (simp add: float_mul_def random_unit_def float_round_def)
next
  case False
  let ?m = "int (k mod 2 ^ 53)"
  have "0 < ?m" using False by simp
  moreover have "?m < 2 ^ 53"
    by (metis mod_less_divisor of_nat_less_iff of_nat_numeral of_nat_power zero_less_numeral zero_less_power)
  ultimately have "float_round (of_int ?m * pow2 (- 54)) = of_int ?m * pow2 (- 54)"
    by (rule float_round_exact)
  then show ?thesis by (simp add: float_mul_def random_unit_def pow2_def)
qed

lemma uniform_eq:
  "uniform (fst PITCH_FACTOR_RANGE) (snd PITCH_FACTOR_RANGE) k
     = float_round (real (14411518807585588 + k mod 2 ^ 53) / 2 ^ 54)"
proof -
  have "uniform (fst PITCH_FACTOR_RANGE) (snd PITCH_FACTOR_RANGE) k
          = float_round (fst PITCH_FACTOR_RANGE + real (k mod 2 ^ 53) / 2 ^ 54)"
    by (simp only: uniform_def pitch_width scaled_draw float_add_def)
  also have "fst PITCH_FACTOR_RANGE + real (k mod 2 ^ 53) / 2 ^ 54
               = real (14411518807585588 + k mod 2 ^ 53) / 2 ^ 54"
    by (simp add: pitch_lo add_divide_distrib)
  finally show ?thesis .
qed

lemma uniform_bounds:
  "fst PITCH_FACTOR_RANGE \<le> uniform (fst PITCH_FACTOR_RANGE) (snd PITCH_FACTOR_RANGE) k
   \<and> uniform (fst PITCH_FACTOR_RANGE) (snd PITCH_FACTOR_RANGE) k \<le> snd PITCH_FACTOR_RANGE"
proof -
  let ?N = "14411518807585588 + k mod 2 ^ 53"
  let ?x = "real ?N / 2 ^ 54"
  have kb: "k mod 2 ^ 53 < 2 ^ 53" by simp
  have Nlo: "real ?N \<ge> 14411518807585588" by simp
  have Nhi: "real ?N < 23418718062326580"
  proof -
    have "?N < 23418718062326580" using kb by simp
    then show ?thesis by (metis of_nat_less_iff of_nat_numeral)
  qed
  show ?thesis
  proof (cases "?x < 1")
    case True
    have "pow2 (- 1) \<le> ?x" using Nlo by (simp add: pow2_def field_simps)
    moreover have "?x < pow2 (- 1 + 1)" using True by (simp add: pow2_def)
    ultimately have fr: "float_round ?x = of_int (round_half_even (?x / pow2 (- 53))) * pow2 (- 53)"
      using float_round_pos_eq [of "- 1" ?x] by simp
    have "of_int 7205759403792794 \<le> ?x / pow2 (- 53)"
      using Nlo by (simp add: pow2_def field_simps)
    then have a: "7205759403792794 \<le> round_half_even (?x / pow2 (- 53))"
      by (rule round_half_even_ge)
    have "?x / pow2 (- 53) \<le> of_int 9007199254740992"
      using True by (simp add: pow2_def field_simps)
    then have b: "round_half_even (?x / pow2 (- 53)) \<le> 9007199254740992"
      by (rule round_half_even_le)
    from a have "7205759403792794 / 2 ^ 53 \<le> float_round ?x"
      unfolding fr by (simp add: pow2_def field_simps)
    moreover from b have "real_of_int (round_half_even (?x / pow2 (- 53))) \<le> 9007199254740992"
      by linarith
    then have "float_round ?x \<le> 5854679515581645 / 2 ^ 52"
      unfolding fr by (simp add: pow2_def field_simps)
    ultimately show ?thesis unfolding uniform_eq by (simp add: pitch_lo pitch_hi)
  next
    case False
    have "pow2 0 \<le> ?x" using False by (simp add: pow2_def)
    moreover have "?x < pow2 (0 + 1)" using Nhi by (simp add: pow2_def field_simps)
    ultimately have fr: "float_round ?x = of_int (round_half_even (?x / pow2 (- 52))) * pow2 (- 52)"
      using float_round_pos_eq [of 0 ?x] by simp
    have "of_int 4503599627370496 \<le> ?x / pow2 (- 52)"
      using False by (simp add: pow2_def field_simps)
    then have a: "4503599627370496 \<le> round_half_even (?x / pow2 (- 52))"
      by (rule round_half_even_ge)
    have "?x / pow2 (- 52) \<le> of_int 5854679515581645"
      using Nhi by (simp add: pow2_def field_simps)
    then have b: "round_half_even (?x / pow2 (- 52)) \<le> 5854679515581645"
      by (rule round_half_even_le)
    from a have "real_of_int (round_half_even (?x / pow2 (- 52))) \<ge> 4503599627370496"
      by linarith
    then have "7205759403792794 / 2 ^ 53 \<le> float_round ?x"
      unfolding fr by (simp add: pow2_def field_simps)
    moreover from b have "real_of_int (round_half_even (?x / pow2 (- 52))) \<le> 5854679515581645"
      by linarith
    then have "float_round ?x \<le> 5854679515581645 / 2 ^ 52"
      unfolding fr by (simp add: pow2_def field_simps)
    ultimately show ?thesis unfolding uniform_eq by (simp add: pitch_lo pitch_hi)
  qed
qed

lemma uniform_top:
  "uniform (fst PITCH_FACTOR_RANGE) (snd PITCH_FACTOR_RANGE) 9007199254740991
     = snd PITCH_FACTOR_RANGE"
proof -
  have "float_round (23418718062326579 / 2 ^ 54) = 5854679515581645 / 2 ^ 52"
    by (subst float_round_pos_eq [where n = 0])
       (simp_all add: pow2_def round_half_even_def Let_def)
  then show ?thesis unfolding uniform_eq by (simp add: pitch_hi)
qed

section \<open>Facts about the registry\<close>

lemma get_speaker_None_iff: "get_speaker sm nm = None \<longleftrightarrow> nm \<notin> fst ` set (pitches sm)"
  by (auto simp: get_speaker_def pitches_def find_None_iff image_iff)

lemma upgrade_gender_pitches:
  "map (\<lambda>s. (name s, pitch_factor s)) (upgrade_gender nm g ss)
     = map (\<lambda>s. (name s, pitch_factor s)) ss"
  by (induction ss) auto

text \<open>An operation leaves the list of names and pitch factors alone or extends it at the
  end, by names that are new.\<close>

definition in_pitch_range :: "real \<Rightarrow> bool" where
  "in_pitch_range p \<longleftrightarrow> fst PITCH_FACTOR_RANGE \<le> p \<and> p \<le> snd PITCH_FACTOR_RANGE"

definition extends :: "(pystr \<times> real) list \<Rightarrow> (pystr \<times> real) list \<Rightarrow> bool" where
  "extends old new \<longleftrightarrow>
     (\<exists>more. new = old @ more \<and> distinct (map fst more)
        \<and> fst ` set more \<inter> fst ` set old = {}
        \<and> list_all (\<lambda>p. in_pitch_range (snd p)) more)"

lemma extends_refl: "extends xs xs"
  by (simp add: extends_def)

lemma extends_trans: "extends xs ys \<Longrightarrow> extends ys zs \<Longrightarrow> extends xs zs"
proof -
  assume "extends xs ys" and "extends ys zs"
  then obtain m1 m2 where ys: "ys = xs @ m1" and zs: "zs = ys @ m2"
    and d1: "distinct (map fst m1)" and d2: "distinct (map fst m2)"
    and i1: "fst ` set m1 \<inter> fst ` set xs = {}"
    and i2: "fst ` set m2 \<inter> fst ` set ys = {}"
    and r1: "list_all (\<lambda>p. in_pitch_range (snd p)) m1"
    and r2: "list_all (\<lambda>p. in_pitch_range (snd p)) m2"
    unfolding extends_def by blast
  from i2 ys have i3: "fst ` set m2 \<inter> fst ` set m1 = {}"
    and i4: "fst ` set m2 \<inter> fst ` set xs = {}"
    by (auto simp: image_Un)
  have "zs = xs @ (m1 @ m2)"
    using ys zs by simp
  moreover have "distinct (map fst (m1 @ m2))"
    using d1 d2 i3 by auto
  moreover have "fst ` set (m1 @ m2) \<inter> fst ` set xs = {}"
    using i1 i4 by (auto simp: image_Un)
  moreover have "list_all (\<lambda>p. in_pitch_range (snd p)) (m1 @ m2)"
    using r1 r2 by simp
  ultimately show "extends xs zs"
    unfolding extends_def by blast
qed

lemma add_speaker_extends: "extends (pitches sm) (pitches (add_speaker sm nm g num))"
proof (cases "get_speaker sm nm")
  case None
  then have "nm \<notin> fst ` set (pitches sm)"
    by (simp add: get_speaker_None_iff)
  with None show ?thesis
    by (simp add: add_speaker_def extends_def pitches_def in_pitch_range_def uniform_bounds)
next
  case (Some existing)
  then show ?thesis
    by (simp add: add_speaker_def pitches_def upgrade_gender_pitches extends_refl)
qed

lemma append_entry_pitches: "pitches (append_entry sm spk txt) = pitches sm"
  by (simp add: append_entry_def pitches_def)

lemma process_part_extends:
  "extends (pitches (fst st)) (pitches (fst (process_part ua ns g st p)))"
  by (cases st)
     (auto simp: process_part_def Let_def append_entry_pitches add_speaker_extends extends_refl)

lemma foldl_extends:
  assumes "\<And>st x. extends (pitches (fst st)) (pitches (fst (f st x)))"
  shows "extends (pitches (fst st)) (pitches (fst (foldl f st xs)))"
proof (induction xs arbitrary: st)
  case Nil
  show ?case by (simp add: extends_refl)
next
  case (Cons x xs)
  show ?case
    using extends_trans [OF assms [of st x] Cons.IH [of "f st x"]] by simp
qed

lemma process_line_extends:
  "extends (pitches (fst st)) (pitches (fst (process_line nlp ua st line)))"
  unfolding process_line_def Let_def by (rule foldl_extends) (rule process_part_extends)

lemma process_text_lines_extends:
  "extends (pitches sm) (pitches (process_text_lines nlp ua lines sm))"
  unfolding process_text_lines_def process_lines_def
  using foldl_extends [of "process_line nlp ua" "(sm, None)" lines, OF process_line_extends]
  by simp

lemma alternate_loop_pitches: "pitches (alternate_loop sm i lines) = pitches sm"
  by (induction lines arbitrary: sm i) (simp_all add: append_entry_pitches)

lemma alternate_extends:
  "extends (pitches sm) (pitches (alternate_speakers_without_person_entities lines sm))"
  unfolding alternate_speakers_without_person_entities_def alternate_loop_pitches
  by (rule extends_trans [OF add_speaker_extends add_speaker_extends])

lemma guess_genders_pitches: "pitches (guess_genders_for_speakers nd sm) = pitches sm"
  by (simp add: guess_genders_for_speakers_def pitches_def guess_gender_def
        split: option.splits)

lemma apply_operation_extends: "extends (pitches sm) (pitches (apply_operation sm op))"
  by (cases op)
     (simp_all add: add_speaker_extends extends_refl process_text_lines_extends
        alternate_extends guess_genders_pitches)

lemma foldl_apply_operation_extends:
  "extends (pitches sm) (pitches (foldl apply_operation sm ops))"
proof (induction ops arbitrary: sm)
  case Nil
  show ?case by (simp add: extends_refl)
next
  case (Cons op ops)
  show ?case
    using extends_trans [OF apply_operation_extends [of sm op] Cons.IH] by simp
qed

lemma py_Narrator: "py ''Narrator'' = [78, 97, 114, 114, 97, 116, 111, 114]"
  by (simp add: py_def)

lemma pitches_init: "pitches (init rs) = [(py ''Narrator'', 1)]"
  by (simp add: pitches_def init_def)

lemma extends_filter_old:
  assumes "extends old new" and "nm \<in> fst ` set old"
  shows "filter (\<lambda>p. fst p = nm) new = filter (\<lambda>p. fst p = nm) old"
proof -
  from assms obtain more where new: "new = old @ more"
    and disj: "fst ` set more \<inter> fst ` set old = {}"
    by (auto simp: extends_def)
  from disj assms(2) have "filter (\<lambda>p. fst p = nm) more = []"
    by (auto simp: filter_empty_conv)
  with new show ?thesis by simp
qed

lemma find_filter_hd: "filter P xs = s # rest \<Longrightarrow> find P xs = Some s"
  by (induction xs) (auto split: if_splits)

text \<open>
  C9. After any sequence of operations on a fresh registry, the registry holds exactly one
  speaker named Narrator, its pitch factor is 1, and \<open>get_speaker\<close> returns it.
\<close>

theorem narrator_always_present:
  "map pitch_factor (filter (\<lambda>s. name s = py ''Narrator'') (speakers (run rs ops))) = [1]
   \<and> map_option pitch_factor (get_speaker (run rs ops) (py ''Narrator'')) = Some 1"
proof -
  let ?sm = "run rs ops"
  have ext: "extends (pitches (init rs)) (pitches ?sm)"
    unfolding run_def by (rule foldl_apply_operation_extends)
  have "filter (\<lambda>p. fst p = py ''Narrator'') (pitches ?sm) = [(py ''Narrator'', 1)]"
    using extends_filter_old [OF ext, of "py ''Narrator''"] by (simp add: pitches_init)
  then have f: "map (\<lambda>s. (name s, pitch_factor s))
                  (filter (\<lambda>s. name s = py ''Narrator'') (speakers ?sm)) = [(py ''Narrator'', 1)]"
    by (simp add: pitches_def filter_map o_def)
  then have one: "map pitch_factor (filter (\<lambda>s. name s = py ''Narrator'') (speakers ?sm)) = [1]"
    by (auto simp: map_eq_Cons_conv)
  then obtain s rest where fl: "filter (\<lambda>s. name s = py ''Narrator'') (speakers ?sm) = s # rest"
    by (cases "filter (\<lambda>s. name s = py ''Narrator'') (speakers ?sm)") auto
  with one have "find (\<lambda>s. name s = py ''Narrator'') (speakers ?sm) = Some s \<and> pitch_factor s = 1"
    using find_filter_hd [OF fl] by simp
  with one show ?thesis by (simp add: get_speaker_def)
qed

theorem narrator_always_present_witness:
  "map pitch_factor
     (filter (\<lambda>s. name s = py ''Narrator'')
        (speakers (run (\<lambda>i. 0)
           [AddSpeaker (py ''Narrator'') (py ''male'') (py ''plural''),
            AddSpeaker (py ''Meg'') (py ''female'') (py ''singular''),
            GuessGenders (\<lambda>n. Some (py ''female''))]))) = [1]"
  using narrator_always_present
    [of "\<lambda>i. 0" "[AddSpeaker (py ''Narrator'') (py ''male'') (py ''plural''),
            AddSpeaker (py ''Meg'') (py ''female'') (py ''singular''),
            GuessGenders (\<lambda>n. Some (py ''female''))]"]
  by simp

section \<open>Pitch factors\<close>

lemma find_filter_conv: "find P xs = (case filter P xs of [] \<Rightarrow> None | x # _ \<Rightarrow> Some x)"
  by (induction xs) auto

lemma get_speaker_pitch:
  "map_option pitch_factor (get_speaker sm nm)
     = map_option snd (find (\<lambda>p. fst p = nm) (pitches sm))"
proof -
  have "map_option pitch_factor (find (\<lambda>s. name s = nm) ss)
          = map_option snd (find (\<lambda>p. fst p = nm) (map (\<lambda>s. (name s, pitch_factor s)) ss))"
    for ss
    by (induction ss) auto
  then show ?thesis by (simp add: get_speaker_def pitches_def)
qed

lemma name_count:
  "length (filter (\<lambda>s. name s = nm) (speakers sm))
     = length (filter (\<lambda>p. fst p = nm) (pitches sm))"
  by (simp add: pitches_def filter_map o_def)

lemma run_append: "run rs (ops @ later) = foldl apply_operation (run rs ops) later"
  by (simp add: run_def)

lemma run_extends_init: "extends [(py ''Narrator'', 1)] (pitches (run rs ops))"
  using foldl_apply_operation_extends [of "init rs" ops] by (simp add: run_def pitches_init)

lemma run_extends_more: "extends (pitches (run rs ops)) (pitches (run rs (ops @ later)))"
  by (simp add: run_append foldl_apply_operation_extends)

lemma distinct_filter_one:
  "distinct (map fst ps) \<Longrightarrow> nm \<in> fst ` set ps \<Longrightarrow> length (filter (\<lambda>p. fst p = nm) ps) = 1"
proof (induction ps)
  case Nil
  then show ?case by simp
next
  case (Cons p ps)
  show ?case
  proof (cases "fst p = nm")
    case True
    with Cons.prems(1) have "nm \<notin> fst ` set ps"
      by simp
    then have "\<forall>q \<in> set ps. fst q \<noteq> nm"
      by (auto simp: image_iff)
    then have "filter (\<lambda>q. fst q = nm) ps = []"
      by (simp add: filter_empty_conv)
    with True show ?thesis by simp
  next
    case False
    with Cons show ?thesis by auto
  qed
qed

lemma run_names_distinct: "distinct (map fst (pitches (run rs ops)))"
proof -
  obtain later where m: "pitches (run rs ops) = [(py ''Narrator'', 1)] @ later"
    and d: "distinct (map fst later)"
    and i: "fst ` set later \<inter> fst ` set [(py ''Narrator'', 1 :: real)] = {}"
    using run_extends_init [of rs ops] unfolding extends_def by blast
  from i have "py ''Narrator'' \<notin> fst ` set later" by auto
  with d show ?thesis unfolding m by simp
qed

lemma run_pitch_in_range:
  assumes "(nm, p) \<in> set (pitches (run rs ops))" and "nm \<noteq> py ''Narrator''"
  shows "in_pitch_range p"
proof -
  obtain later where m: "pitches (run rs ops) = [(py ''Narrator'', 1)] @ later"
    and r: "list_all (\<lambda>p. in_pitch_range (snd p)) later"
    using run_extends_init [of rs ops] unfolding extends_def by blast
  from assms m have "(nm, p) \<in> set later" by auto
  with r show ?thesis by (auto simp: list_all_iff)
qed

text \<open>The first insertion of a name draws its pitch factor from the generator.\<close>

lemma add_speaker_draws:
  assumes "get_speaker sm nm = None"
  shows "map_option pitch_factor (get_speaker (add_speaker sm nm g num) nm)
           = Some (uniform (fst PITCH_FACTOR_RANGE) (snd PITCH_FACTOR_RANGE)
                     (random_stream sm (random_pos sm)))"
proof -
  have app: "find P xs = None \<Longrightarrow> find P (xs @ [x]) = (if P x then Some x else None)"
    for P and xs :: "speaker_rec list" and x
    by (induction xs) (auto split: if_splits)
  from assms have "find (\<lambda>s. name s = nm) (speakers sm) = None"
    by (simp add: get_speaker_def)
  then have "find (\<lambda>s. name s = nm) (speakers sm @ [s]) = (if name s = nm then Some s else None)"
    for s
    by (rule app)
  with assms show ?thesis
    by (simp add: add_speaker_def get_speaker_def)
qed

text \<open>
  C8, as the code has it. A registered speaker other than Narrator has a pitch factor
  between the two floats of \<open>PITCH_FACTOR_RANGE\<close>, both included; whatever operations
  follow, among them \<open>add_speaker\<close> and \<open>get_speaker\<close> for the same name, the registry keeps
  one record of that name and \<open>get_speaker\<close> finds the same pitch factor.
\<close>

theorem pitch_factor_assigned_once:
  assumes "get_speaker (run rs ops) nm = Some s" and "nm \<noteq> py ''Narrator''"
  shows "fst PITCH_FACTOR_RANGE \<le> pitch_factor s \<and> pitch_factor s \<le> snd PITCH_FACTOR_RANGE
         \<and> map_option pitch_factor (get_speaker (run rs (ops @ later)) nm) = Some (pitch_factor s)
         \<and> length (filter (\<lambda>r. name r = nm) (speakers (run rs (ops @ later)))) = 1"
proof -
  let ?old = "pitches (run rs ops)" and ?new = "pitches (run rs (ops @ later))"
  obtain q where q: "find (\<lambda>p. fst p = nm) ?old = Some q" and qs: "snd q = pitch_factor s"
    using get_speaker_pitch [of "run rs ops" nm] assms(1)
    by (cases "find (\<lambda>p. fst p = nm) ?old") auto
  from q have "fst q = nm"
    by (auto simp: find_Some_iff)
  with q qs have f: "find (\<lambda>p. fst p = nm) ?old = Some (nm, pitch_factor s)"
    by (cases q) simp
  then have mem: "(nm, pitch_factor s) \<in> set ?old"
    by (auto simp: find_Some_iff)
  then have dom: "nm \<in> fst ` set ?old"
    by force
  have range: "in_pitch_range (pitch_factor s)"
    using mem assms(2) by (rule run_pitch_in_range)
  have "filter (\<lambda>p. fst p = nm) ?new = filter (\<lambda>p. fst p = nm) ?old"
    using run_extends_more dom by (rule extends_filter_old)
  then have "find (\<lambda>p. fst p = nm) ?new = find (\<lambda>p. fst p = nm) ?old"
    by (simp add: find_filter_conv)
  with f have stable: "map_option pitch_factor (get_speaker (run rs (ops @ later)) nm)
                         = Some (pitch_factor s)"
    by (simp add: get_speaker_pitch)
  from run_extends_more [of rs ops later] dom have "nm \<in> fst ` set ?new"
    unfolding extends_def by auto
  then have "length (filter (\<lambda>p. fst p = nm) ?new) = 1"
    using run_names_distinct by (intro distinct_filter_one)
  then have one: "length (filter (\<lambda>r. name r = nm) (speakers (run rs (ops @ later)))) = 1"
    by (simp add: name_count)
  from range stable one show ?thesis
    by (simp add: in_pitch_range_def)
qed

lemma py_Meg: "py ''Meg'' = [77, 101, 103]"
  by (simp add: py_def)

lemma run_add_Meg:
  "get_speaker (run rs [AddSpeaker (py ''Meg'') g num]) (py ''Meg'')
     = Some \<lparr>name = py ''Meg'', gender = g, number = num,
             pitch_factor = uniform (fst PITCH_FACTOR_RANGE) (snd PITCH_FACTOR_RANGE) (rs 0)\<rparr>"
  by (simp add: run_def init_def add_speaker_def get_speaker_def py_Meg py_Narrator)

theorem pitch_factor_assigned_once_witness:
  "get_speaker (run (\<lambda>i. 0) [AddSpeaker (py ''Meg'') (py ''unknown'') (py ''singular'')])
       (py ''Meg'')
     = Some \<lparr>name = py ''Meg'', gender = py ''unknown'', number = py ''singular'',
             pitch_factor = uniform (fst PITCH_FACTOR_RANGE) (snd PITCH_FACTOR_RANGE) 0\<rparr>
   \<and> py ''Meg'' \<noteq> py ''Narrator''
   \<and> fst PITCH_FACTOR_RANGE \<le> uniform (fst PITCH_FACTOR_RANGE) (snd PITCH_FACTOR_RANGE) 0
   \<and> uniform (fst PITCH_FACTOR_RANGE) (snd PITCH_FACTOR_RANGE) 0 \<le> snd PITCH_FACTOR_RANGE
   \<and> map_option pitch_factor
       (get_speaker
          (run (\<lambda>i. 0)
             ([AddSpeaker (py ''Meg'') (py ''unknown'') (py ''singular'')]
              @ [AddSpeaker (py ''Meg'') (py ''female'') (py ''singular''),
                 GetSpeaker (py ''Meg'')]))
          (py ''Meg''))
       = Some (uniform (fst PITCH_FACTOR_RANGE) (snd PITCH_FACTOR_RANGE) 0)"
proof -
  let ?s = "\<lparr>name = py ''Meg'', gender = py ''unknown'', number = py ''singular'',
             pitch_factor = uniform (fst PITCH_FACTOR_RANGE) (snd PITCH_FACTOR_RANGE) 0\<rparr>"
  have h1: "get_speaker (run (\<lambda>i. 0) [AddSpeaker (py ''Meg'') (py ''unknown'') (py ''singular'')])
              (py ''Meg'') = Some ?s"
    by (rule run_add_Meg)
  have h2: "py ''Meg'' \<noteq> py ''Narrator''"
    by (simp add: py_Meg py_Narrator)
  show ?thesis
    using h1 h2
      pitch_factor_assigned_once [OF h1 h2,
        of "[AddSpeaker (py ''Meg'') (py ''female'') (py ''singular''), GetSpeaker (py ''Meg'')]"]
    by simp
qed

text \<open>
  The upper bound is reached: when the generator returns its largest value,
  \<open>random.uniform(0.8, 1.3)\<close> rounds to the float \<open>1.3\<close> itself, which is not below
  \<open>13/10\<close>. The interval of C8 is closed at its upper end.
\<close>

theorem pitch_factor_upper_bound_reached:
  "map_option pitch_factor
     (get_speaker
        (run (\<lambda>i. 9007199254740991)
           [AddSpeaker (py ''Meg'') (py ''unknown'') (py ''singular'')])
        (py ''Meg''))
     = Some (snd PITCH_FACTOR_RANGE)
   \<and> \<not> snd PITCH_FACTOR_RANGE < 13 / 10"
proof -
  have "\<not> snd PITCH_FACTOR_RANGE < 13 / 10"
    by (simp add: pitch_hi)
  then show ?thesis
    by (simp add: run_add_Meg uniform_top)
qed

section \<open>Speaker attribution on concrete lines\<close>

lemmas segment_eval =
  py_def split_narration_dialogue_def findall.simps match_here_def quote_char_def
  parts_of_match_def strip_def isspace_def

lemmas attribution_eval =
  detect_attribution_def attribution_verbs_def word_boundary_def is_word_def

lemmas process_eval =
  process_text_lines_def process_lines_def process_line_def process_part_def Let_def
  clean_text_def get_named_speaker_def infer_gender_from_pronouns_def pronoun_map_def
  append_entry_def add_speaker_def get_speaker_def init_def

text \<open>
  C4. The line \<open>"I do not know," he whispered.\<close> with no named speaker and no earlier
  speaker: the dialogue entry is credited to \<open>Unnamed Speaker 1\<close>, which the registry does
  not hold, neither when the entry is appended nor afterwards.
\<close>

theorem placeholder_speaker_not_registered:
  "superbook
     (process_text_lines (\<lambda>line. \<lparr>ents = [], tokens = []\<rparr>) (\<lambda>c. False)
        [py ''\"I do not know,\" he whispered.''] (init (\<lambda>i. 0)))
     = [\<lparr>entry_speaker = py ''Unnamed Speaker 1'', entry_text = py ''I do not know,''\<rparr>,
        \<lparr>entry_speaker = py ''Narrator'', entry_text = py ''he whispered.''\<rparr>]
   \<and> map name
       (speakers
          (process_text_lines (\<lambda>line. \<lparr>ents = [], tokens = []\<rparr>) (\<lambda>c. False)
             [py ''\"I do not know,\" he whispered.''] (init (\<lambda>i. 0))))
     = [py ''Narrator'']
   \<and> get_speaker
       (process_text_lines (\<lambda>line. \<lparr>ents = [], tokens = []\<rparr>) (\<lambda>c. False)
          [py ''\"I do not know,\" he whispered.''] (init (\<lambda>i. 0)))
       (py ''Unnamed Speaker 1'') = None"
  by (simp add: process_eval segment_eval attribution_eval)

section \<open>The audio phase on concrete scripts\<close>

lemma float_round_one: "float_round 1 = 1"
  using float_round_exact [of 1 0] by (simp add: pow2_def)

lemma float_round_four: "float_round 4 = 4"
  using float_round_exact [of 1 2] by (simp add: pow2_def)

lemma float_round_quarter: "float_round (1 / 4) = 1 / 4"
  using float_round_exact [of 1 "- 2"] by (simp add: pow2_def)

lemma min_audio_duration: "MIN_AUDIO_DURATION = 1 / 2"
  by (simp add: MIN_AUDIO_DURATION_def float_lit_def float_round_half)

lemma str_nat_one: "str_nat (Suc 0) = [49]"
  by (simp add: str_nat.simps digit_char_def)

lemmas audio_eval =
  generate_audio_with_librosa_single_thread_def generate_audio_with_librosa_multithreading_def
  process_entry_single_thread_def process_entry_def apply_pitch_shift_librosa_def
  enumerate1_def temp_audio_path_def output_audio_path_def zfill_def str_nat_one
  file_write_def file_remove_def float_div_def float_mul_def min_audio_duration
  float_round_one float_round_four float_round_quarter Let_def
  get_speaker_def append_entry_def init_def py_def

text \<open>
  C1. A script of one entry, spoken by Narrator, with collaborators that succeed: the
  single-threaded generator pads the index to the width of the entry count and writes
  \<open>audio/1_Narrator.wav\<close>; the task of the worker pool pads to the fixed width 2 and writes
  \<open>audio/01_Narrator.wav\<close>.
\<close>

theorem output_file_names_differ:
  "map fst
     (generate_audio_with_librosa_single_thread
        \<lparr>tts = (\<lambda>t. Some \<lparr>samples = [0], sample_rate = 1\<rparr>),
         resample = (\<lambda>y a b. Some y), time_stretch = (\<lambda>y r. Some y),
         writable = (\<lambda>p. True)\<rparr>
        (append_entry (init (\<lambda>i. 0)) (py ''Narrator'') (py ''Hi'')) [])
     = [py ''audio/1_Narrator.wav'']
   \<and> map fst
       (generate_audio_with_librosa_multithreading
          \<lparr>tts = (\<lambda>t. Some \<lparr>samples = [0], sample_rate = 1\<rparr>),
           resample = (\<lambda>y a b. Some y), time_stretch = (\<lambda>y r. Some y),
           writable = (\<lambda>p. True)\<rparr>
          [0] (append_entry (init (\<lambda>i. 0)) (py ''Narrator'') (py ''Hi'')) [])
     = [py ''audio/01_Narrator.wav'']"
  by (simp add: audio_eval)

text \<open>
  C3. A waveform of one sample at 4 Hz lasts a quarter of a second, below
  \<open>MIN_AUDIO_DURATION\<close>. The single-threaded generator writes it through as it is. The task
  of the worker pool has no such test: what it writes is what the resampler \<open>rs\<close> and the
  time stretcher \<open>ts\<close> make of the waveform, and nothing when one of them raises.
\<close>

theorem short_waveform_exempt_only_single_thread:
  "map_of
     (generate_audio_with_librosa_single_thread
        \<lparr>tts = (\<lambda>t. Some \<lparr>samples = [1 / 4], sample_rate = 4\<rparr>),
         resample = rs, time_stretch = ts, writable = (\<lambda>p. True)\<rparr>
        (append_entry (init (\<lambda>i. 0)) (py ''Narrator'') (py ''Hi'')) [])
     (py ''audio/1_Narrator.wav'')
     = Some \<lparr>samples = [1 / 4], sample_rate = 4\<rparr>
   \<and> map_of
       (generate_audio_with_librosa_multithreading
          \<lparr>tts = (\<lambda>t. Some \<lparr>samples = [1 / 4], sample_rate = 4\<rparr>),
           resample = rs, time_stretch = ts, writable = (\<lambda>p. True)\<rparr>
          [0] (append_entry (init (\<lambda>i. 0)) (py ''Narrator'') (py ''Hi'')) [])
       (py ''audio/01_Narrator.wav'')
     = (case rs [1 / 4] 4 4 of
          None \<Rightarrow> None
        | Some shifted \<Rightarrow>
            (case ts shifted (float_round (real (length shifted))) of
               None \<Rightarrow> None
             | Some stretched \<Rightarrow> Some \<lparr>samples = stretched, sample_rate = 4\<rparr>))"
  by (simp add: audio_eval split: option.splits)

section \<open>Assembly of the combined file\<close>

lemma foldl_combine_step_length:
  "length (foldl (combine_step from_wav) acc fs)
     = length acc
       + sum_list (map (\<lambda>f. length (from_wav (snd f)))
           (filter (\<lambda>f. endswith (fst f) (py ''.wav'')) fs))
       + length (filter (\<lambda>f. endswith (fst f) (py ''.wav'')) fs) * DELAY_BETWEEN_LINES_MS"
  by (induction fs arbitrary: acc) (simp_all add: combine_step_def silent_def)

lemma sum_list_insort_key:
  "sum_list (map g (insort_key k x xs)) = g x + sum_list (map g xs)"
  for g :: "'a \<Rightarrow> nat" and k :: "'a \<Rightarrow> 'b::linorder"
  by (induction xs) simp_all

lemma sum_list_sort_key:
  "sum_list (map g (sort_key k xs)) = sum_list (map g xs)"
  for g :: "'a \<Rightarrow> nat" and k :: "'a \<Rightarrow> 'b::linorder"
  by (induction xs) (simp_all add: sum_list_insort_key)

lemma combine_audio_files_length:
  "length (combine_audio_files from_wav fs directory)
     = sum_list (map (\<lambda>f. length (from_wav (snd f)))
         (filter (\<lambda>f. endswith (fst f) (py ''.wav'')) (listdir fs directory)))
       + length (filter (\<lambda>f. endswith (fst f) (py ''.wav'')) (listdir fs directory))
         * DELAY_BETWEEN_LINES_MS"
proof -
  let ?is_wav = "\<lambda>f :: pystr \<times> wav. endswith (fst f) (py ''.wav'')"
  let ?files = "listdir fs directory"
  have "filter ?is_wav (sort_key fst ?files) = sort_key fst (filter ?is_wav ?files)"
    by (rule filter_sort)
  then show ?thesis
    by (simp add: combine_audio_files_def foldl_combine_step_length silent_def
          sum_list_sort_key)
qed

text \<open>
  C2. The combined file lasts as long as the wave files of the directory together, plus
  one silence gap for every file: the loop appends the gap after each file, the last one
  too. For one file of one second that is 1300 milliseconds, not 1000.
\<close>

theorem combined_duration_has_trailing_gap:
  "length (combine_audio_files from_wav fs directory)
     = sum_list (map (\<lambda>f. length (from_wav (snd f)))
         (filter (\<lambda>f. endswith (fst f) (py ''.wav'')) (listdir fs directory)))
       + length (filter (\<lambda>f. endswith (fst f) (py ''.wav'')) (listdir fs directory))
         * DELAY_BETWEEN_LINES_MS
   \<and> length (combine_audio_files (\<lambda>w. replicate 1000 0)
               [(py ''audio/1_Narrator.wav'', w)] (py ''audio'')) = 1300"
  by (simp add: combine_audio_files_length listdir_def endswith_def py_def
        DELAY_BETWEEN_LINES_MS_def)

section \<open>Facts about segmentation\<close>

lemma match_here_noquote:
  "quote_char \<notin> set s \<Longrightarrow> match_here s = (s, [], [])"
proof -
  assume "quote_char \<notin> set s"
  then have "\<forall>c \<in> set s. c \<noteq> quote_char" by auto
  then have tw: "takeWhile (\<lambda>c. c \<noteq> quote_char) s = s"
    and dw: "dropWhile (\<lambda>c. c \<noteq> quote_char) s = []"
    by (simp_all add: takeWhile_eq_all_conv)
  show ?thesis by (simp add: match_here_def Let_def tw dw)
qed

lemma split_at_quote:
  "quote_char \<notin> set n \<Longrightarrow>
     takeWhile (\<lambda>c. c \<noteq> quote_char) (n @ quote_char # r) = n
     \<and> dropWhile (\<lambda>c. c \<noteq> quote_char) (n @ quote_char # r) = quote_char # r"
proof -
  assume "quote_char \<notin> set n"
  then have "\<forall>c \<in> set n. c \<noteq> quote_char" by auto
  then show ?thesis by (simp add: takeWhile_append2 dropWhile_append2)
qed

lemma match_here_unmatched:
  assumes "quote_char \<notin> set n" and "quote_char \<notin> set r"
  shows "match_here (n @ quote_char # r) = (n, [], quote_char # r)"
proof -
  from assms(2) have "\<forall>c \<in> set r. c \<noteq> quote_char" by auto
  then have dw: "dropWhile (\<lambda>c. c \<noteq> quote_char) r = []" by simp
  show ?thesis
    by (simp add: match_here_def Let_def split_at_quote [OF assms(1)] dw)
qed

lemma match_here_pair:
  assumes "quote_char \<notin> set n" and "quote_char \<notin> set d"
  shows "match_here (n @ quote_char # d @ quote_char # rest) = (n, d, rest)"
  by (simp add: match_here_def Let_def split_at_quote [OF assms(1)]
        split_at_quote [OF assms(2)])

text \<open>A text has no quote, or one quote with none after it, or a first pair of quotes.\<close>

lemma quote_cases:
  obtains (none) "quote_char \<notin> set s"
  | (one) n r where "s = n @ quote_char # r" "quote_char \<notin> set n" "quote_char \<notin> set r"
  | (pair) n d rest where "s = n @ quote_char # d @ quote_char # rest"
      "quote_char \<notin> set n" "quote_char \<notin> set d"
proof (cases "quote_char \<in> set s")
  case False
  then show ?thesis by (rule none)
next
  case True
  then obtain n r where s: "s = n @ quote_char # r" and n: "quote_char \<notin> set n"
    by (auto dest: split_list_first)
  show ?thesis
  proof (cases "quote_char \<in> set r")
    case False
    with s n show ?thesis by (rule one)
  next
    case True
    then obtain d rest where "r = d @ quote_char # rest" and "quote_char \<notin> set d"
      by (auto dest: split_list_first)
    with s n show ?thesis by (auto intro: pair)
  qed
qed

lemma findall_Nil: "findall True [] = []" "findall False [] = [([], [])]"
  by (simp_all add: findall.simps [of _ "[]"] match_here_def)

lemma findall_noquote:
  assumes "quote_char \<notin> set s"
  shows "findall m s =
           (if s = [] then (if m then [] else [([], [])]) else [(s, []), ([], [])])"
proof (cases "s = []")
  case True
  then show ?thesis by (cases m) (simp_all add: findall_Nil)
next
  case False
  then show ?thesis
    by (subst findall.simps) (simp add: match_here_noquote [OF assms] findall_Nil)
qed

lemma findall_pair:
  assumes "quote_char \<notin> set n" and "quote_char \<notin> set d"
  shows "findall m (n @ quote_char # d @ quote_char # rest) = (n, d) # findall False rest"
  by (subst findall.simps) (simp add: match_here_pair [OF assms])

lemma findall_one:
  assumes "quote_char \<notin> set n" and "quote_char \<notin> set r"
  shows "findall m (n @ quote_char # r) =
           (if n = [] then (if m then [] else [([], [])]) else [(n, []), ([], [])])
           @ findall False r"
proof (cases "n = []")
  case False
  have step: "findall False (quote_char # r) = ([], []) # findall False r"
    using match_here_unmatched [of "[]" r] assms(2)
    by (simp add: findall.simps [of _ "quote_char # r"])
  from False show ?thesis
    by (subst findall.simps) (simp add: match_here_unmatched [OF assms] step)
next
  case True
  have "findall True (quote_char # r) = findall False r"
    using match_here_unmatched [of "[]" r] assms(2)
    by (simp add: findall.simps [of _ "quote_char # r"])
  moreover have "findall False (quote_char # r) = ([], []) # findall True (quote_char # r)"
    using match_here_unmatched [of "[]" r] assms(2)
    by (simp add: findall.simps [of False "quote_char # r"])
  ultimately show ?thesis
    using True by (cases m) simp_all
qed

lemma filter_not_dropWhile: "filter (\<lambda>c. \<not> P c) (dropWhile P xs) = filter (\<lambda>c. \<not> P c) xs"
  by (induction xs) auto

lemma non_whitespace_strip: "non_whitespace (strip s) = non_whitespace s"
proof -
  have "filter (\<lambda>c. \<not> isspace c) (rev (dropWhile isspace (rev (dropWhile isspace s))))
          = rev (filter (\<lambda>c. \<not> isspace c) (dropWhile isspace (rev (dropWhile isspace s))))"
    by (simp add: rev_filter)
  also have "\<dots> = rev (filter (\<lambda>c. \<not> isspace c) (rev (dropWhile isspace s)))"
    by (simp only: filter_not_dropWhile)
  also have "\<dots> = filter (\<lambda>c. \<not> isspace c) (dropWhile isspace s)"
    by (simp add: rev_filter)
  also have "\<dots> = filter (\<lambda>c. \<not> isspace c) s"
    by (rule filter_not_dropWhile)
  finally show ?thesis by (simp add: non_whitespace_def strip_def)
qed

lemma non_whitespace_blank: "strip s = [] \<Longrightarrow> non_whitespace s = []"
  using non_whitespace_strip [of s] by (simp add: non_whitespace_def)

lemma non_whitespace_Nil: "non_whitespace [] = []"
  by (simp add: non_whitespace_def)

lemma non_whitespace_append: "non_whitespace (a @ b) = non_whitespace a @ non_whitespace b"
  by (simp add: non_whitespace_def)

lemma segment_texts_simps:
  "segment_texts [] = []"
  "segment_texts (p # ps) = ptext p @ segment_texts ps"
  "segment_texts (ps @ qs) = segment_texts ps @ segment_texts qs"
  by (simp_all add: segment_texts_def)

lemma non_whitespace_parts:
  "non_whitespace (segment_texts (parts_of_match m)) = non_whitespace (fst m @ snd m)"
  by (simp add: parts_of_match_def segment_texts_simps non_whitespace_append
        non_whitespace_strip non_whitespace_blank non_whitespace_Nil)

text \<open>The parts of a list of matches.\<close>

lemma parts_Nil: "parts_of_match ([], []) = []"
  by (simp add: parts_of_match_def strip_def)

lemma filter_noquote: "quote_char \<notin> set n \<Longrightarrow> filter (\<lambda>c. c \<noteq> quote_char) n = n"
  by (induction n) auto

lemma findall_content:
  "non_whitespace (segment_texts (concat (map parts_of_match (findall m s))))
     = non_whitespace (filter (\<lambda>c. c \<noteq> quote_char) s)"
proof (induction "length s" arbitrary: s m rule: less_induct)
  case less
  show ?case
  proof (cases s rule: quote_cases)
    case none
    then have f: "filter (\<lambda>c. c \<noteq> quote_char) s = s"
      by (rule filter_noquote)
    have "findall m s = (if s = [] then (if m then [] else [([], [])]) else [(s, []), ([], [])])"
      using none by (rule findall_noquote)
    then show ?thesis
      unfolding f
      by (simp add: segment_texts_simps non_whitespace_parts parts_Nil non_whitespace_Nil)
  next
    case (one n r)
    then have f: "filter (\<lambda>c. c \<noteq> quote_char) s = n @ r"
      by (simp add: filter_noquote)
    have "findall m s =
            (if n = [] then (if m then [] else [([], [])]) else [(n, []), ([], [])])
            @ (if r = [] then [([], [])] else [(r, []), ([], [])])"
      using one by (simp add: findall_one findall_noquote)
    then show ?thesis
      unfolding f
      by (simp add: segment_texts_simps non_whitespace_parts parts_Nil non_whitespace_Nil
            non_whitespace_append)
  next
    case (pair n d rest)
    then have f: "filter (\<lambda>c. c \<noteq> quote_char) s = (n @ d) @ filter (\<lambda>c. c \<noteq> quote_char) rest"
      by (simp add: filter_noquote)
    from pair have "length rest < length s" by simp
    then have ih: "non_whitespace (segment_texts (concat (map parts_of_match (findall False rest))))
                 = non_whitespace (filter (\<lambda>c. c \<noteq> quote_char) rest)"
      by (rule less)
    have "findall m s = (n, d) # findall False rest"
      using pair by (simp add: findall_pair)
    then show ?thesis
      unfolding f
      by (simp add: segment_texts_simps non_whitespace_parts non_whitespace_append ih)
  qed
qed

lemma non_whitespace_filter:
  "non_whitespace (filter (\<lambda>c. c \<noteq> quote_char) s)
     = filter (\<lambda>c. \<not> isspace c \<and> c \<noteq> quote_char) s"
  by (simp add: non_whitespace_def conj_commute)

text \<open>
  C6, as the code has it. The texts of the segments of a line, white space left out, are
  the line with its white space and its double quotes left out: the quotes delimit the
  dialogue and belong to no segment.
\<close>

theorem segments_reconstruct_content:
  assumes "even (count_quotes line)"
  shows "non_whitespace (segment_texts (split_narration_dialogue line))
           = filter (\<lambda>c. \<not> isspace c \<and> c \<noteq> quote_char) line"
  by (simp add: split_narration_dialogue_def findall_content non_whitespace_filter)

theorem segments_reconstruct_content_witness:
  "even (count_quotes (py ''Meg said, \"Hi.\"''))
   \<and> non_whitespace (segment_texts (split_narration_dialogue (py ''Meg said, \"Hi.\"'')))
       = py ''Megsaid,Hi.''"
proof -
  have e: "even (count_quotes (py ''Meg said, \"Hi.\"''))"
    by (simp add: count_quotes_def py_def quote_char_def)
  have "filter (\<lambda>c. \<not> isspace c \<and> c \<noteq> quote_char) (py ''Meg said, \"Hi.\"'')
          = py ''Megsaid,Hi.''"
    by (simp add: py_def quote_char_def isspace_def)
  with e segments_reconstruct_content [OF e] show ?thesis by simp
qed

text \<open>
  The line \<open>"Hi"\<close> has two quotes; its one segment is \<open>Hi\<close>, while the content of the line
  that is not white space is \<open>"Hi"\<close>, quotes included.
\<close>

theorem segments_drop_quotes:
  "even (count_quotes (py ''\"Hi\"''))
   \<and> non_whitespace (segment_texts (split_narration_dialogue (py ''\"Hi\"''))) = py ''Hi''
   \<and> non_whitespace (py ''\"Hi\"'') = py ''\"Hi\"''
   \<and> py ''Hi'' \<noteq> py ''\"Hi\"''"
  by (simp add: count_quotes_def non_whitespace_def segment_texts_def segment_eval)

section \<open>Unterminated quotes\<close>

lemma count_quotes_noquote: "quote_char \<notin> set s \<Longrightarrow> count_quotes s = 0"
  by (induction s) (auto simp: count_quotes_def)

lemma count_quotes_append: "count_quotes (a @ b) = count_quotes a + count_quotes b"
  by (simp add: count_quotes_def)

lemma count_quotes_Cons: "count_quotes (quote_char # s) = Suc (count_quotes s)"
  by (simp add: count_quotes_def)

lemma count_quotes_pos: "0 < count_quotes s \<Longrightarrow> quote_char \<in> set s"
  using count_quotes_noquote [of s] by (cases "quote_char \<in> set s") auto

lemma last_quote_split:
  assumes "quote_char \<in> set s"
  shows "s = before_last_quote s @ quote_char # after_last_quote s"
    and "quote_char \<notin> set (after_last_quote s)"
proof -
  let ?P = "\<lambda>c. c \<noteq> quote_char"
  from assms have "\<not> (\<forall>c \<in> set (rev s). ?P c)" by simp
  then have ne: "dropWhile ?P (rev s) \<noteq> []"
    by (simp add: dropWhile_eq_Nil_conv)
  then have "\<not> ?P (hd (dropWhile ?P (rev s)))"
    by (rule hd_dropWhile)
  with ne have dw: "dropWhile ?P (rev s) = quote_char # tl (dropWhile ?P (rev s))"
    by (cases "dropWhile ?P (rev s)") auto
  have "rev s = takeWhile ?P (rev s) @ dropWhile ?P (rev s)"
    by simp
  then have "rev s = takeWhile ?P (rev s) @ quote_char # tl (dropWhile ?P (rev s))"
    using dw by simp
  then have "rev (rev s) = rev (takeWhile ?P (rev s) @ quote_char # tl (dropWhile ?P (rev s)))"
    by (rule arg_cong)
  then show "s = before_last_quote s @ quote_char # after_last_quote s"
    by (simp add: before_last_quote_def after_last_quote_def)
  show "quote_char \<notin> set (after_last_quote s)"
    by (auto simp: after_last_quote_def dest: set_takeWhileD)
qed

lemma parts_one_more:
  assumes "even (count_quotes pre)" and "quote_char \<notin> set post"
  shows "concat (map parts_of_match (findall m (pre @ quote_char # post)))
           = concat (map parts_of_match (findall m pre)) @ parts_of_match (post, [])"
  using assms(1)
proof (induction "length pre" arbitrary: pre m rule: less_induct)
  case less
  show ?case
  proof (cases pre rule: quote_cases)
    case none
    have "findall m (pre @ quote_char # post) =
            (if pre = [] then (if m then [] else [([], [])]) else [(pre, []), ([], [])])
            @ (if post = [] then [([], [])] else [(post, []), ([], [])])"
      using none assms(2) by (simp add: findall_one findall_noquote)
    moreover have "findall m pre =
            (if pre = [] then (if m then [] else [([], [])]) else [(pre, []), ([], [])])"
      using none by (rule findall_noquote)
    ultimately show ?thesis
      by (simp add: parts_Nil)
  next
    case (one n r)
    then have "count_quotes pre = 1"
      by (simp add: count_quotes_append count_quotes_Cons count_quotes_noquote)
    with less.prems show ?thesis by simp
  next
    case (pair n d rest)
    then have "count_quotes pre = Suc (Suc (count_quotes rest))"
      by (simp add: count_quotes_append count_quotes_Cons count_quotes_noquote)
    with less.prems have ev: "even (count_quotes rest)" by simp
    from pair have "length rest < length pre" by simp
    then have ih: "concat (map parts_of_match (findall False (rest @ quote_char # post)))
           = concat (map parts_of_match (findall False rest)) @ parts_of_match (post, [])"
      using ev by (rule less.hyps)
    have eq: "pre @ quote_char # post = n @ quote_char # d @ quote_char # (rest @ quote_char # post)"
      using pair by simp
    have "findall m (pre @ quote_char # post)
                 = (n, d) # findall False (rest @ quote_char # post)"
      unfolding eq using pair(2,3) by (rule findall_pair)
    moreover have "findall m pre = (n, d) # findall False rest"
      using pair by (simp add: findall_pair)
    ultimately show ?thesis
      by (simp add: ih)
  qed
qed

lemma not_isspace_quote: "\<not> isspace quote_char"
  by (simp add: isspace_def quote_char_def)

lemma no_quote_in_segments:
  "quote_char \<notin> set (segment_texts (split_narration_dialogue s))"
proof
  assume "quote_char \<in> set (segment_texts (split_narration_dialogue s))"
  then have "quote_char \<in> set (non_whitespace (segment_texts (split_narration_dialogue s)))"
    by (simp add: non_whitespace_def not_isspace_quote)
  then have "quote_char \<in> set (filter (\<lambda>c. \<not> isspace c \<and> c \<noteq> quote_char) s)"
    by (simp add: split_narration_dialogue_def findall_content non_whitespace_filter)
  then show False by simp
qed

text \<open>
  C7, as the code has it. A line with an odd number of double quotes is segmented like the
  text before its last quote, which has an even number of them, followed by the text after
  the last quote as one narration segment (none when it is blank). The last quote itself
  is dropped: no segment holds a quote character.
\<close>

theorem unterminated_quote_dropped:
  assumes "odd (count_quotes line)"
  shows "split_narration_dialogue line
           = split_narration_dialogue (before_last_quote line)
             @ (if strip (after_last_quote line) = [] then []
                else [\<lparr>ptype = narration, ptext = strip (after_last_quote line)\<rparr>])
         \<and> even (count_quotes (before_last_quote line))
         \<and> quote_char \<notin> set (segment_texts (split_narration_dialogue line))"
proof -
  let ?pre = "before_last_quote line" and ?post = "after_last_quote line"
  from assms have "0 < count_quotes line" by (cases "count_quotes line") auto
  then have mem: "quote_char \<in> set line" by (rule count_quotes_pos)
  have line: "line = ?pre @ quote_char # ?post" and post: "quote_char \<notin> set ?post"
    using last_quote_split [OF mem] by simp_all
  have "count_quotes line = count_quotes (?pre @ quote_char # ?post)"
    using line by simp
  then have "count_quotes line = Suc (count_quotes ?pre)"
    using post by (simp add: count_quotes_append count_quotes_Cons count_quotes_noquote)
  with assms have ev: "even (count_quotes ?pre)" by simp
  have "concat (map parts_of_match (findall False line))
          = concat (map parts_of_match (findall False (?pre @ quote_char # ?post)))"
    using line by simp
  also have "\<dots> = concat (map parts_of_match (findall False ?pre)) @ parts_of_match (?post, [])"
    using ev post by (rule parts_one_more)
  finally have "split_narration_dialogue line
                  = split_narration_dialogue ?pre @ parts_of_match (?post, [])"
    by (simp add: split_narration_dialogue_def)
  moreover have "parts_of_match (?post, [])
                   = (if strip ?post = [] then [] else [\<lparr>ptype = narration, ptext = strip ?post\<rparr>])"
    by (simp add: parts_of_match_def strip_def)
  ultimately show ?thesis
    using ev no_quote_in_segments [of line] by simp
qed

theorem unterminated_quote_dropped_witness:
  "odd (count_quotes (py ''He said \"hello''))
   \<and> split_narration_dialogue (py ''He said \"hello'')
       = [\<lparr>ptype = narration, ptext = py ''He said''\<rparr>,
          \<lparr>ptype = narration, ptext = py ''hello''\<rparr>]"
proof -
  have h: "odd (count_quotes (py ''He said \"hello''))"
    by (simp add: count_quotes_def py_def quote_char_def)
  have "split_narration_dialogue (before_last_quote (py ''He said \"hello''))
          = [\<lparr>ptype = narration, ptext = py ''He said''\<rparr>]"
    by (simp add: before_last_quote_def segment_eval)
  moreover have "strip (after_last_quote (py ''He said \"hello'')) = py ''hello''"
    by (simp add: after_last_quote_def segment_eval)
  moreover have "py ''hello'' \<noteq> []"
    by (simp add: py_def)
  ultimately show ?thesis
    using h unterminated_quote_dropped [OF h] by simp
qed

text \<open>
  The line \<open>a"b\<close>: the quote is in neither of the two narration segments, it is not
  absorbed into them.
\<close>

theorem unterminated_quote_not_absorbed:
  "odd (count_quotes (py ''a\"b''))
   \<and> split_narration_dialogue (py ''a\"b'')
       = [\<lparr>ptype = narration, ptext = py ''a''\<rparr>, \<lparr>ptype = narration, ptext = py ''b''\<rparr>]
   \<and> quote_char \<notin> set (py ''a'') \<and> quote_char \<notin> set (py ''b'')"
  by (simp add: count_quotes_def segment_eval)

section \<open>Non-ASCII characters\<close>

lemma findall_set:
  "(n, d) \<in> set (findall m s) \<Longrightarrow> set n \<subseteq> set s \<and> set d \<subseteq> set s"
proof (induction "length s" arbitrary: s m rule: less_induct)
  case less
  show ?case
  proof (cases s rule: quote_cases)
    case none
    have "findall m s = (if s = [] then (if m then [] else [([], [])]) else [(s, []), ([], [])])"
      using none by (rule findall_noquote)
    with less.prems show ?thesis
      by (auto split: if_splits)
  next
    case (one n' r)
    have "findall m s =
            (if n' = [] then (if m then [] else [([], [])]) else [(n', []), ([], [])])
            @ (if r = [] then [([], [])] else [(r, []), ([], [])])"
      using one by (simp add: findall_one findall_noquote)
    with less.prems one(1) show ?thesis
      by (auto split: if_splits)
  next
    case (pair n' d' rest)
    have f: "findall m s = (n', d') # findall False rest"
      using pair by (simp add: findall_pair)
    from pair have len: "length rest < length s" by simp
    show ?thesis
    proof (cases "(n, d) = (n', d')")
      case True
      with pair(1) show ?thesis by auto
    next
      case False
      with less.prems f have "(n, d) \<in> set (findall False rest)" by auto
      with len have "set n \<subseteq> set rest \<and> set d \<subseteq> set rest" by (rule less.hyps)
      with pair(1) show ?thesis by auto
    qed
  qed
qed

lemma set_strip: "set (strip s) \<subseteq> set s"
proof -
  have "set (dropWhile isspace (rev (dropWhile isspace s))) \<subseteq> set (rev (dropWhile isspace s))"
    by (auto dest: set_dropWhileD)
  also have "\<dots> \<subseteq> set s"
    by (auto dest: set_dropWhileD)
  finally show ?thesis by (simp add: strip_def)
qed

lemma split_texts_subset:
  assumes "p \<in> set (split_narration_dialogue s)"
  shows "set (ptext p) \<subseteq> set s"
proof -
  from assms obtain n d where nd: "(n, d) \<in> set (findall False s)"
    and p: "p \<in> set (parts_of_match (n, d))"
    by (auto simp: split_narration_dialogue_def)
  from p have "ptext p = strip n \<or> ptext p = strip d"
    by (auto simp: parts_of_match_def split: if_splits)
  then have "set (ptext p) \<subseteq> set n \<union> set d"
    using set_strip [of n] set_strip [of d] by auto
  with findall_set [OF nd] show ?thesis by auto
qed

lemma split_noquote:
  assumes "quote_char \<notin> set s"
  shows "split_narration_dialogue s
           = (if strip s = [] then [] else [\<lparr>ptype = narration, ptext = strip s\<rparr>])"
proof -
  have "strip [] = []" by (simp add: strip_def)
  then show ?thesis
    by (simp add: split_narration_dialogue_def findall_noquote [OF assms] parts_of_match_def)
qed

lemma add_speaker_superbook: "superbook (add_speaker sm nm g num) = superbook sm"
  by (simp add: add_speaker_def split: option.splits)

lemma process_part_superbook:
  "\<exists>e. superbook (fst (process_part ua ns g st p)) = superbook (fst st) @ [e]
         \<and> entry_of_part p e"
  by (cases st; cases "ptype p")
     (simp_all add: process_part_def Let_def append_entry_def add_speaker_superbook
        entry_of_part_def)

lemma process_parts_superbook:
  "\<exists>es. superbook (fst (foldl (process_part ua ns g) st ps)) = superbook (fst st) @ es
          \<and> list_all2 entry_of_part ps es"
proof (induction ps arbitrary: st)
  case Nil
  show ?case by simp
next
  case (Cons p ps)
  obtain e where e: "superbook (fst (process_part ua ns g st p)) = superbook (fst st) @ [e]"
    and pe: "entry_of_part p e"
    using process_part_superbook by blast
  obtain es where es: "superbook (fst (foldl (process_part ua ns g) (process_part ua ns g st p) ps))
                         = superbook (fst (process_part ua ns g st p)) @ es"
    and pes: "list_all2 entry_of_part ps es"
    using Cons.IH by blast
  from e es have "superbook (fst (foldl (process_part ua ns g) st (p # ps)))
                    = superbook (fst st) @ (e # es)"
    by simp
  moreover from pe pes have "list_all2 entry_of_part (p # ps) (e # es)"
    by simp
  ultimately show ?case by blast
qed

lemma clean_text_ascii: "list_all (\<lambda>c. c \<le> 127) (clean_text line)"
  by (simp add: clean_text_def list_all_iff)

lemma list_all2_right:
  "list_all2 P xs ys \<Longrightarrow> y \<in> set ys \<Longrightarrow> \<exists>x \<in> set xs. P x y"
  by (induction rule: list_all2_induct) auto

lemma process_line_superbook:
  "\<exists>es. superbook (fst (process_line nlp ua st line)) = superbook (fst st) @ es
          \<and> list_all ascii_entry es
          \<and> (quote_char \<notin> set line \<longrightarrow> list_all (\<lambda>e. entry_speaker e = py ''Narrator'') es)"
proof -
  let ?ps = "split_narration_dialogue (clean_text line)"
  obtain es where es: "superbook (fst (process_line nlp ua st line)) = superbook (fst st) @ es"
    and pes: "list_all2 entry_of_part ?ps es"
    unfolding process_line_def Let_def using process_parts_superbook by blast
  have ascii: "list_all ascii_entry es"
  proof -
    have "ascii_entry e" if "e \<in> set es" for e
    proof -
      from that pes obtain p where p: "p \<in> set ?ps" and pe: "entry_of_part p e"
        by (blast dest: list_all2_right)
      from p have "set (ptext p) \<subseteq> set (clean_text line)"
        by (rule split_texts_subset)
      with pe show ?thesis
        by (auto simp: ascii_entry_def entry_of_part_def list_all_iff clean_text_def)
    qed
    then show ?thesis by (simp add: list_all_iff)
  qed
  have narr: "list_all (\<lambda>e. entry_speaker e = py ''Narrator'') es" if "quote_char \<notin> set line"
  proof -
    from that have "quote_char \<notin> set (clean_text line)"
      by (simp add: clean_text_def)
    then have all: "\<forall>p \<in> set ?ps. ptype p = narration"
      by (simp add: split_noquote)
    have "entry_speaker e = py ''Narrator''" if "e \<in> set es" for e
    proof -
      from that pes obtain p where "p \<in> set ?ps" and "entry_of_part p e"
        by (blast dest: list_all2_right)
      with all show ?thesis by (simp add: entry_of_part_def)
    qed
    then show ?thesis by (simp add: list_all_iff)
  qed
  from es ascii narr show ?thesis by blast
qed

lemma process_lines_superbook:
  "\<exists>es. superbook (fst (process_lines nlp ua st lines)) = superbook (fst st) @ es
          \<and> list_all ascii_entry es"
proof (induction lines arbitrary: st)
  case Nil
  show ?case by (simp add: process_lines_def)
next
  case (Cons line lines)
  obtain es1 where e1: "superbook (fst (process_line nlp ua st line)) = superbook (fst st) @ es1"
    and a1: "list_all ascii_entry es1"
    using process_line_superbook by blast
  obtain es2 where e2: "superbook (fst (process_lines nlp ua (process_line nlp ua st line) lines))
                          = superbook (fst (process_line nlp ua st line)) @ es2"
    and a2: "list_all ascii_entry es2"
    using Cons.IH by blast
  have "superbook (fst (process_lines nlp ua st (line # lines))) = superbook (fst st) @ (es1 @ es2)"
    using e1 e2 by (simp add: process_lines_def)
  moreover have "list_all ascii_entry (es1 @ es2)"
    using a1 a2 by simp
  ultimately show ?case by blast
qed

lemma entry_of_part_texts:
  "list_all2 entry_of_part ps es \<Longrightarrow> map entry_text es = map ptext ps"
  by (induction rule: list_all2_induct) (simp_all add: entry_of_part_def)

lemma process_line_texts:
  "\<exists>es. superbook (fst (process_line nlp ua st line)) = superbook (fst st) @ es
          \<and> map entry_text es = map ptext (split_narration_dialogue (clean_text line))"
proof -
  obtain es where "superbook (fst (process_line nlp ua st line)) = superbook (fst st) @ es"
    and "list_all2 entry_of_part (split_narration_dialogue (clean_text line)) es"
    unfolding process_line_def Let_def using process_parts_superbook by blast
  then show ?thesis
    using entry_of_part_texts by blast
qed

lemma process_lines_texts:
  "\<exists>es. superbook (fst (process_lines nlp ua st lines)) = superbook (fst st) @ es
          \<and> map entry_text es
              = concat (map (\<lambda>l. map ptext (split_narration_dialogue (clean_text l))) lines)"
proof (induction lines arbitrary: st)
  case Nil
  show ?case by (simp add: process_lines_def)
next
  case (Cons line lines)
  obtain es1 where e1: "superbook (fst (process_line nlp ua st line)) = superbook (fst st) @ es1"
    and t1: "map entry_text es1 = map ptext (split_narration_dialogue (clean_text line))"
    using process_line_texts by blast
  obtain es2 where e2: "superbook (fst (process_lines nlp ua (process_line nlp ua st line) lines))
                          = superbook (fst (process_line nlp ua st line)) @ es2"
    and t2: "map entry_text es2
               = concat (map (\<lambda>l. map ptext (split_narration_dialogue (clean_text l))) lines)"
    using Cons.IH by blast
  have "superbook (fst (process_lines nlp ua st (line # lines))) = superbook (fst st) @ (es1 @ es2)"
    using e1 e2 by (simp add: process_lines_def)
  moreover have "map entry_text (es1 @ es2)
      = concat (map (\<lambda>l. map ptext (split_narration_dialogue (clean_text l))) (line # lines))"
    using t1 t2 by simp
  ultimately show ?case by blast
qed

text \<open>A line is processed like its cleaned form: the annotator, the segmenter and the
  attribution pattern see the cleaned line only.\<close>

lemma clean_text_idem: "clean_text (clean_text line) = clean_text line"
  by (simp add: clean_text_def)

lemma process_line_clean:
  "process_line nlp ua st (clean_text line) = process_line nlp ua st line"
  by (simp add: process_line_def clean_text_idem)

lemma process_lines_clean:
  "process_lines nlp ua st (map clean_text lines) = process_lines nlp ua st lines"
  unfolding process_lines_def
  by (induction lines arbitrary: st) (simp_all add: process_line_clean)

text \<open>A line without a double quote appends its stripped cleaned text, under Narrator,
  and nothing when that text is blank.\<close>

lemma narration_entry:
  assumes "entry_of_part \<lparr>ptype = narration, ptext = t\<rparr> e"
  shows "e = \<lparr>entry_speaker = py ''Narrator'', entry_text = t\<rparr>"
  using assms by (cases e) (simp add: entry_of_part_def)

lemma process_line_noquote:
  assumes "quote_char \<notin> set line"
  shows "superbook (fst (process_line nlp ua st line))
           = superbook (fst st)
             @ (if strip (clean_text line) = [] then []
                else [\<lparr>entry_speaker = py ''Narrator'', entry_text = strip (clean_text line)\<rparr>])"
proof -
  let ?ps = "split_narration_dialogue (clean_text line)"
  from assms have "quote_char \<notin> set (clean_text line)"
    by (simp add: clean_text_def)
  then have ps: "?ps = (if strip (clean_text line) = [] then []
                        else [\<lparr>ptype = narration, ptext = strip (clean_text line)\<rparr>])"
    by (rule split_noquote)
  obtain es where es: "superbook (fst (process_line nlp ua st line)) = superbook (fst st) @ es"
    and pes: "list_all2 entry_of_part ?ps es"
    unfolding process_line_def Let_def using process_parts_superbook by blast
  show ?thesis
  proof (cases "strip (clean_text line) = []")
    case True
    with ps pes have "es = []" by simp
    with es True show ?thesis by simp
  next
    case False
    with ps pes obtain e where "es = [e]"
      and "entry_of_part \<lparr>ptype = narration, ptext = strip (clean_text line)\<rparr> e"
      by (auto simp: list_all2_Cons1)
    then have "es = [\<lparr>entry_speaker = py ''Narrator'', entry_text = strip (clean_text line)\<rparr>]"
      using narration_entry by blast
    with es False show ?thesis by simp
  qed
qed

text \<open>
  C10. \<open>clean_text\<close> keeps the ASCII characters of a line, in order, and nothing else,
  and \<open>process_text_lines\<close> works on the cleaned lines: its result is that for the cleaned
  lines, it keeps the script it is given and appends one entry for every segment of every
  cleaned line, with the text of the segment, which is ASCII. A line without the ASCII
  double quote, whatever other quotation marks it has, is one narration segment, its
  cleaned text stripped, and its one entry is Narrator's with that text (no segment and no
  entry when the cleaned text is blank).
\<close>

theorem non_ascii_stripped:
  "clean_text line = filter (\<lambda>c. c \<le> 127) line
   \<and> process_text_lines nlp ua lines sm = process_text_lines nlp ua (map clean_text lines) sm
   \<and> take (length (superbook sm)) (superbook (process_text_lines nlp ua lines sm))
       = superbook sm
   \<and> map entry_text
       (drop (length (superbook sm)) (superbook (process_text_lines nlp ua lines sm)))
       = concat (map (\<lambda>l. map ptext (split_narration_dialogue (clean_text l))) lines)
   \<and> list_all ascii_entry
       (drop (length (superbook sm)) (superbook (process_text_lines nlp ua lines sm)))
   \<and> (quote_char \<notin> set line \<longrightarrow>
        split_narration_dialogue (clean_text line)
          = (if strip (clean_text line) = [] then []
             else [\<lparr>ptype = narration, ptext = strip (clean_text line)\<rparr>])
        \<and> superbook (process_text_lines nlp ua [line] sm)
            = superbook sm
              @ (if strip (clean_text line) = [] then []
                 else [\<lparr>entry_speaker = py ''Narrator'',
                         entry_text = strip (clean_text line)\<rparr>]))"
proof -
  have c: "process_text_lines nlp ua lines sm = process_text_lines nlp ua (map clean_text lines) sm"
    by (simp add: process_text_lines_def process_lines_clean)
  obtain es where es: "superbook (process_text_lines nlp ua lines sm) = superbook sm @ es"
    and texts: "map entry_text es
                  = concat (map (\<lambda>l. map ptext (split_narration_dialogue (clean_text l))) lines)"
    using process_lines_texts [of nlp ua "(sm, None)" lines]
    by (auto simp: process_text_lines_def)
  obtain es' where es': "superbook (process_text_lines nlp ua lines sm) = superbook sm @ es'"
    and ascii: "list_all ascii_entry es'"
    using process_lines_superbook [of nlp ua "(sm, None)" lines]
    by (auto simp: process_text_lines_def)
  from es es' have same: "es' = es" by simp
  have t: "take (length (superbook sm)) (superbook (process_text_lines nlp ua lines sm))
             = superbook sm"
    using es by simp
  have d: "drop (length (superbook sm)) (superbook (process_text_lines nlp ua lines sm)) = es"
    using es by simp
  have b: "split_narration_dialogue (clean_text line)
          = (if strip (clean_text line) = [] then []
             else [\<lparr>ptype = narration, ptext = strip (clean_text line)\<rparr>])
        \<and> superbook (process_text_lines nlp ua [line] sm)
            = superbook sm
              @ (if strip (clean_text line) = [] then []
                 else [\<lparr>entry_speaker = py ''Narrator'',
                         entry_text = strip (clean_text line)\<rparr>])"
    if q: "quote_char \<notin> set line"
  proof -
    from q have "quote_char \<notin> set (clean_text line)"
      by (simp add: clean_text_def)
    then have n: "split_narration_dialogue (clean_text line)
          = (if strip (clean_text line) = [] then []
             else [\<lparr>ptype = narration, ptext = strip (clean_text line)\<rparr>])"
      by (rule split_noquote)
    have "superbook (process_text_lines nlp ua [line] sm)
            = superbook (fst (process_line nlp ua (sm, None) line))"
      by (simp add: process_text_lines_def process_lines_def)
    also have "\<dots> = superbook sm
              @ (if strip (clean_text line) = [] then []
                 else [\<lparr>entry_speaker = py ''Narrator'',
                         entry_text = strip (clean_text line)\<rparr>])"
      using process_line_noquote [OF q, of nlp ua "(sm, None)"] by simp
    finally show ?thesis using n by blast
  qed
  have ct: "clean_text line = filter (\<lambda>c. c \<le> 127) line"
    by (simp add: clean_text_def)
  have tx: "map entry_text
       (drop (length (superbook sm)) (superbook (process_text_lines nlp ua lines sm)))
       = concat (map (\<lambda>l. map ptext (split_narration_dialogue (clean_text l))) lines)"
    using d texts by simp
  have as: "list_all ascii_entry
       (drop (length (superbook sm)) (superbook (process_text_lines nlp ua lines sm)))"
    using d ascii same by simp
  from ct c t tx as b show ?thesis
    by blast
qed

text \<open>The line \<open>Hi she said.\<close> whose \<open>Hi\<close> stands between the curly quotes U+201C and
  U+201D: one narration segment, one entry of Narrator's with the cleaned text.\<close>

theorem non_ascii_stripped_witness:
  "quote_char \<notin> set ([8220] @ py ''Hi'' @ [8221] @ py '' she said.'')
   \<and> clean_text ([8220] @ py ''Hi'' @ [8221] @ py '' she said.'') = py ''Hi she said.''
   \<and> split_narration_dialogue
       (clean_text ([8220] @ py ''Hi'' @ [8221] @ py '' she said.''))
       = [\<lparr>ptype = narration, ptext = py ''Hi she said.''\<rparr>]
   \<and> superbook
       (process_text_lines (\<lambda>line. \<lparr>ents = [], tokens = []\<rparr>) (\<lambda>c. False)
          [ [8220] @ py ''Hi'' @ [8221] @ py '' she said.''] (init (\<lambda>i. 0)))
       = [\<lparr>entry_speaker = py ''Narrator'', entry_text = py ''Hi she said.''\<rparr>]"
proof -
  have h: "quote_char \<notin> set ([8220] @ py ''Hi'' @ [8221] @ py '' she said.'')"
    by (simp add: py_def quote_char_def)
  have c: "clean_text ([8220] @ py ''Hi'' @ [8221] @ py '' she said.'') = py ''Hi she said.''"
    by (simp add: clean_text_def py_def)
  have s: "strip (py ''Hi she said.'') = py ''Hi she said.''"
    by (simp add: strip_def isspace_def py_def)
  have ne: "py ''Hi she said.'' \<noteq> []"
    by (simp add: py_def)
  have i: "superbook (init (\<lambda>i. 0)) = []"
    by (simp add: init_def)
  note inst =
    non_ascii_stripped [of "[8220] @ py ''Hi'' @ [8221] @ py '' she said.''"
      "\<lambda>line. \<lparr>ents = [], tokens = []\<rparr>" "\<lambda>c. False" "[]" "init (\<lambda>i. 0)"]
  from inst h have sp:
    "split_narration_dialogue (clean_text ([8220] @ py ''Hi'' @ [8221] @ py '' she said.''))
       = (if strip (clean_text ([8220] @ py ''Hi'' @ [8221] @ py '' she said.'')) = [] then []
          else [\<lparr>ptype = narration,
                  ptext = strip (clean_text ([8220] @ py ''Hi'' @ [8221] @ py '' she said.''))\<rparr>])"
    by blast
  from inst h have sb:
    "superbook
       (process_text_lines (\<lambda>line. \<lparr>ents = [], tokens = []\<rparr>) (\<lambda>c. False)
          [ [8220] @ py ''Hi'' @ [8221] @ py '' she said.''] (init (\<lambda>i. 0)))
       = superbook (init (\<lambda>i. 0))
         @ (if strip (clean_text ([8220] @ py ''Hi'' @ [8221] @ py '' she said.'')) = [] then []
            else [\<lparr>entry_speaker = py ''Narrator'',
                    entry_text = strip (clean_text ([8220] @ py ''Hi'' @ [8221] @ py '' she said.''))\<rparr>])"
    by blast
  have sp': "split_narration_dialogue
       (clean_text ([8220] @ py ''Hi'' @ [8221] @ py '' she said.''))
       = [\<lparr>ptype = narration, ptext = py ''Hi she said.''\<rparr>]"
    unfolding sp unfolding c s using ne by simp
  have sb': "superbook
       (process_text_lines (\<lambda>line. \<lparr>ents = [], tokens = []\<rparr>) (\<lambda>c. False)
          [ [8220] @ py ''Hi'' @ [8221] @ py '' she said.''] (init (\<lambda>i. 0)))
       = [\<lparr>entry_speaker = py ''Narrator'', entry_text = py ''Hi she said.''\<rparr>]"
    unfolding sb unfolding c s i using ne by simp
  from h c sp' sb' show ?thesis
    by blast
qed

section \<open>Narration spans\<close>

lemma match_verbs_nonempty: "match_verbs ua vs s = Some tok \<Longrightarrow> tok \<noteq> []"
  by (induction vs) (auto split: if_splits)

lemma search_attribution_nonempty: "search_attribution ua prev s = Some tok \<Longrightarrow> tok \<noteq> []"
  by (induction s arbitrary: prev)
     (auto split: if_splits option.splits dest: match_verbs_nonempty)

lemma detect_attribution_truthy:
  "truthy (detect_attribution ua t) \<longleftrightarrow> detect_attribution ua t \<noteq> None"
  by (cases "detect_attribution ua t")
     (auto simp: detect_attribution_def dest: search_attribution_nonempty)

lemma add_speaker_registers: "get_speaker (add_speaker sm nm g num) nm \<noteq> None"
proof -
  have "nm \<in> fst ` set (pitches (add_speaker sm nm g num))"
  proof (cases "get_speaker sm nm")
    case None
    then show ?thesis by (simp add: add_speaker_def pitches_def)
  next
    case (Some existing)
    then have "nm \<in> fst ` set (pitches sm)"
      using get_speaker_None_iff [of sm nm] by simp
    with Some show ?thesis
      by (simp add: add_speaker_def pitches_def upgrade_gender_pitches)
  qed
  then show ?thesis by (simp add: get_speaker_None_iff)
qed

lemma get_speaker_append_entry: "get_speaker (append_entry sm spk txt) nm = get_speaker sm nm"
  by (simp add: get_speaker_def append_entry_def)

text \<open>
  C5, as the code has it. The text of a narration span is recorded under Narrator. When
  the pattern matches somewhere in the text, the word after the verb of the leftmost match
  (\<open>detect_attribution\<close>), capitalized or not, is registered and is the last known speaker
  from then on; when it matches nowhere, the registry and the last known speaker stay.
\<close>

theorem narration_attribution:
  assumes "ptype p = narration"
  shows "superbook (fst (process_part ua ns g (sm, last_speaker) p))
           = superbook sm @ [\<lparr>entry_speaker = py ''Narrator'', entry_text = ptext p\<rparr>]
         \<and> (\<forall>tok. detect_attribution ua (ptext p) = Some tok \<longrightarrow>
               get_speaker (fst (process_part ua ns g (sm, last_speaker) p)) tok \<noteq> None
               \<and> snd (process_part ua ns g (sm, last_speaker) p) = Some tok)
         \<and> (detect_attribution ua (ptext p) = None \<longrightarrow>
               speakers (fst (process_part ua ns g (sm, last_speaker) p)) = speakers sm
               \<and> snd (process_part ua ns g (sm, last_speaker) p) = last_speaker)"
proof (cases "detect_attribution ua (ptext p)")
  case None
  with assms show ?thesis
    by (simp add: process_part_def append_entry_def)
next
  case (Some tok)
  then have t: "tok \<noteq> []"
    by (auto simp: detect_attribution_def dest: search_attribution_nonempty)
  from assms Some t have r:
    "process_part ua ns g (sm, last_speaker) p
       = (append_entry (add_speaker sm tok (py ''unknown'') (py ''singular''))
            (py ''Narrator'') (ptext p), Some tok)"
    by (simp add: process_part_def Let_def)
  have reg: "get_speaker
               (append_entry (add_speaker sm tok (py ''unknown'') (py ''singular''))
                  (py ''Narrator'') (ptext p)) tok \<noteq> None"
    by (simp only: get_speaker_append_entry add_speaker_registers not_False_eq_True)
  have sb: "superbook
              (append_entry (add_speaker sm tok (py ''unknown'') (py ''singular''))
                 (py ''Narrator'') (ptext p))
              = superbook sm @ [\<lparr>entry_speaker = py ''Narrator'', entry_text = ptext p\<rparr>]"
    by (simp add: append_entry_def add_speaker_superbook)
  from Some reg sb show ?thesis
    unfolding r by simp
qed

theorem narration_attribution_witness:
  "ptype \<lparr>ptype = narration, ptext = py ''said Meg''\<rparr> = narration
   \<and> detect_attribution (\<lambda>c. False) (py ''said Meg'') = Some (py ''Meg'')
   \<and> get_speaker
       (fst (process_part (\<lambda>c. False) None (py ''unknown'') (init (\<lambda>i. 0), None)
               \<lparr>ptype = narration, ptext = py ''said Meg''\<rparr>))
       (py ''Meg'') \<noteq> None
   \<and> snd (process_part (\<lambda>c. False) None (py ''unknown'') (init (\<lambda>i. 0), None)
           \<lparr>ptype = narration, ptext = py ''said Meg''\<rparr>) = Some (py ''Meg'')"
proof -
  have h: "ptype \<lparr>ptype = narration, ptext = py ''said Meg''\<rparr> = narration"
    by simp
  have d: "detect_attribution (\<lambda>c. False) (py ''said Meg'') = Some (py ''Meg'')"
    by (simp add: attribution_eval py_def)
  show ?thesis
    using d
      narration_attribution [OF h, of "\<lambda>c. False" None "py ''unknown''" "init (\<lambda>i. 0)" None]
    by simp
qed

text \<open>
  The narration \<open>he said it, added Meg\<close>: the one capitalized token after an attribution
  verb is \<open>Meg\<close>, but the leftmost match is \<open>said it\<close>. The speaker that is registered and
  becomes the last known speaker is \<open>it\<close>; \<open>Meg\<close> is not registered.
\<close>

theorem attribution_takes_leftmost_match:
  "capitalized_attributions (\<lambda>c. False) (py ''he said it, added Meg'') = [py ''Meg'']
   \<and> map name
       (speakers
          (fst (process_part (\<lambda>c. False) None (py ''unknown'') (init (\<lambda>i. 0), None)
                  \<lparr>ptype = narration, ptext = py ''he said it, added Meg''\<rparr>)))
       = [py ''Narrator'', py ''it'']
   \<and> get_speaker
       (fst (process_part (\<lambda>c. False) None (py ''unknown'') (init (\<lambda>i. 0), None)
               \<lparr>ptype = narration, ptext = py ''he said it, added Meg''\<rparr>))
       (py ''Meg'') = None
   \<and> snd (process_part (\<lambda>c. False) None (py ''unknown'') (init (\<lambda>i. 0), None)
           \<lparr>ptype = narration, ptext = py ''he said it, added Meg''\<rparr>) = Some (py ''it'')"
  by (simp add: capitalized_token_after_def process_eval attribution_eval py_def)


end
